theory Spec2Isabelle
  imports Main "HOL-Library.Word"
begin

section \<open>Data model of \<^verbatim>\<open>include/kfr/dft/fft.hpp\<close>\<close>

text \<open>
  \<^verbatim>\<open>size_t\<close> is a 64-bit unsigned machine integer: the counters of the traversal
  (\<^verbatim>\<open>stack[rdepth]++\<close>, \<^verbatim>\<open>offset += out_offset\<close>) wrap around as the words do.
  Indices into \<^verbatim>\<open>stages\<close> and \<^verbatim>\<open>stack\<close> are natural numbers; the one place where the
  source can wrap an index (\<^verbatim>\<open>rdepth--\<close> at zero) is written out.
\<close>

type_synonym size_t = "64 word"

text \<open>
  A pointer is \<^verbatim>\<open>nullptr\<close> or a byte address inside a block (one caller-supplied
  buffer is one block). Pointer arithmetic moves the address and keeps the block;
  arithmetic on \<^verbatim>\<open>nullptr\<close>, which the source leaves undefined, keeps \<^verbatim>\<open>nullptr\<close>.
\<close>

datatype ptr = nullptr | Ptr nat int

type_synonym 'v memory = "nat \<Rightarrow> int \<Rightarrow> 'v"

text \<open>
  \<^verbatim>\<open>struct dft_stage\<close>. The two pure virtual \<^verbatim>\<open>do_execute\<close> overloads (one for
  \<^verbatim>\<open>cdirect_t\<close>, one for \<^verbatim>\<open>cinvert_t\<close>) are function-valued fields: the kernel takes
  \<^verbatim>\<open>out\<close>, \<^verbatim>\<open>in\<close>, \<^verbatim>\<open>temp\<close> and transforms the memory.
\<close>

record 'v dft_stage =
  radix :: size_t
  stage_size :: size_t
  data_size :: size_t
  temp_size :: size_t
  data :: ptr
  repeats :: size_t
  out_offset :: size_t
  blocks :: size_t
  user :: size_t
  name :: string
  recursion :: bool
  can_inplace :: bool
  inplace :: bool
  to_scratch :: bool
  need_reorder :: bool
  do_execute_direct :: "ptr \<Rightarrow> ptr \<Rightarrow> ptr \<Rightarrow> 'v memory \<Rightarrow> 'v memory"
  do_execute_invert :: "ptr \<Rightarrow> ptr \<Rightarrow> ptr \<Rightarrow> 'v memory \<Rightarrow> 'v memory"

datatype dft_pack_format = Perm | CCs

text \<open>
  \<^verbatim>\<open>struct dft_plan\<close>: \<^verbatim>\<open>size\<close>, \<^verbatim>\<open>temp_size\<close>, \<^verbatim>\<open>data_size\<close> and the vector of stages
  (the coefficient arena \<^verbatim>\<open>data\<close> is only read by the kernels).
\<close>

record 'v dft_plan =
  size_dft :: size_t
  temp_size_dft :: size_t
  data_size_dft :: size_t
  stages :: "'v dft_stage list"

text \<open>\<^verbatim>\<open>struct dft_plan_real : dft_plan<T>\<close> adds its own \<^verbatim>\<open>size\<close>, \<^verbatim>\<open>fmt\<close> and \<^verbatim>\<open>fmt_stage\<close>.\<close>

record 'v dft_plan_real = "'v dft_plan" +
  size_real :: size_t
  fmt :: dft_pack_format
  fmt_stage :: "'v dft_stage"

text \<open>
  What the headers that are not part of this file provide to \<^verbatim>\<open>execute_dft\<close>:
  \<^verbatim>\<open>sizeof(complex<T>)\<close>, \<^verbatim>\<open>platform<>::native_cache_alignment\<close> and \<^verbatim>\<open>align_up\<close>.
\<close>

record platform =
  sizeof_complex :: size_t
  native_cache_alignment :: size_t
  align_up :: "size_t \<Rightarrow> size_t \<Rightarrow> size_t"

subsection \<open>Machine state\<close>

text \<open>
  The state is the memory together with the log of the calls made so far: every call of
  a stage's \<^verbatim>\<open>execute\<close> and of \<^verbatim>\<open>builtin_memcpy\<close> is appended with its arguments.
\<close>

datatype event =
  Exec_stage nat bool ptr ptr ptr
  | Exec_fmt bool ptr ptr ptr
  | Memcpy ptr ptr size_t

record 'v state =
  mem :: "'v memory"
  trace :: "event list"

datatype error =
  stage_index_out_of_range | stack_index_out_of_range | univector_index_out_of_range

text \<open>\<^verbatim>\<open>p + n\<close> on \<^verbatim>\<open>u8*\<close>, \<^verbatim>\<open>p - n\<close> on \<^verbatim>\<open>u8*\<close>, and \<^verbatim>\<open>p + n\<close> on \<^verbatim>\<open>complex<T>*\<close>.\<close>

fun byte_add :: "ptr \<Rightarrow> size_t \<Rightarrow> ptr" where
  "byte_add nullptr n = nullptr"
| "byte_add (Ptr b a) n = Ptr b (a + int (unat n))"

fun byte_sub :: "ptr \<Rightarrow> size_t \<Rightarrow> ptr" where
  "byte_sub nullptr n = nullptr"
| "byte_sub (Ptr b a) n = Ptr b (a - int (unat n))"

fun complex_add :: "platform \<Rightarrow> ptr \<Rightarrow> size_t \<Rightarrow> ptr" where
  "complex_add pf nullptr n = nullptr"
| "complex_add pf (Ptr b a) n = Ptr b (a + int (unat (sizeof_complex pf)) * int (unat n))"

text \<open>\<^verbatim>\<open>builtin_memcpy(dst, src, n)\<close>: the \<open>n\<close> bytes at \<open>src\<close> are copied to \<open>dst\<close>.\<close>

fun builtin_memcpy :: "ptr \<Rightarrow> ptr \<Rightarrow> size_t \<Rightarrow> 'v memory \<Rightarrow> 'v memory" where
  "builtin_memcpy (Ptr bd ad) (Ptr bs as) n m =
     (\<lambda>b a. if b = bd \<and> ad \<le> a \<and> a < ad + int (unat n) then m bs (as + (a - ad)) else m b a)"
| "builtin_memcpy dst src n m = m"

definition do_memcpy :: "ptr \<Rightarrow> ptr \<Rightarrow> size_t \<Rightarrow> 'v state \<Rightarrow> 'v state" where
  "do_memcpy dst src n s =
     s\<lparr>mem := builtin_memcpy dst src n (mem s), trace := trace s @ [Memcpy dst src n]\<rparr>"

section \<open>\<^verbatim>\<open>dft_stage::execute\<close>\<close>

definition execute_stage ::
  "('v, 'z) dft_stage_scheme \<Rightarrow> bool \<Rightarrow> ptr \<Rightarrow> ptr \<Rightarrow> ptr \<Rightarrow> 'v memory \<Rightarrow> 'v memory" where
  "execute_stage s is_inverse out inp temp m =
     (if is_inverse then do_execute_invert s out inp temp m
      else do_execute_direct s out inp temp m)"

text \<open>The call \<^verbatim>\<open>stages[k]->execute(cbool<inverse>, out, in, temp)\<close>, logged.\<close>

definition call_stage ::
  "('v, 'z) dft_plan_scheme \<Rightarrow> nat \<Rightarrow> bool \<Rightarrow> ptr \<Rightarrow> ptr \<Rightarrow> ptr \<Rightarrow> 'v state \<Rightarrow> 'v state" where
  "call_stage pl k is_inverse out inp temp s =
     s\<lparr>mem := execute_stage (stages pl ! k) is_inverse out inp temp (mem s),
       trace := trace s @ [Exec_stage k is_inverse out inp temp]\<rparr>"

section \<open>\<^verbatim>\<open>dft_plan::select_in\<close>, \<^verbatim>\<open>select_out\<close>\<close>

text \<open>Both index \<^verbatim>\<open>stages\<close> unchecked; every caller below has checked the index.\<close>

definition select_in ::
  "('v, 'z) dft_plan_scheme \<Rightarrow> nat \<Rightarrow> ptr \<Rightarrow> ptr \<Rightarrow> ptr \<Rightarrow> bool \<Rightarrow> ptr" where
  "select_in pl stage out inp scratch in_scratch =
     (if stage = 0 then (if in_scratch then scratch else inp)
      else (if to_scratch (stages pl ! (stage - 1)) then scratch else out))"

definition select_out :: "('v, 'z) dft_plan_scheme \<Rightarrow> nat \<Rightarrow> ptr \<Rightarrow> ptr \<Rightarrow> ptr" where
  "select_out pl stage out scratch =
     (if to_scratch (stages pl ! stage) then scratch else out)"

section \<open>\<^verbatim>\<open>dft_plan::execute_dft\<close>\<close>

text \<open>The local variables of the \<^verbatim>\<open>do ... while\<close> loop, and the state they act on.\<close>

record 'v loop_state =
  stack :: "size_t list"
  offset :: size_t
  rdepth :: nat
  maxdepth :: nat
  st :: "'v state"

text \<open>
  One pass through the body of the \<^verbatim>\<open>do ... while\<close> loop. \<^verbatim>\<open>stack\<close> has 32 entries
  and \<^verbatim>\<open>stages\<close> has \<^verbatim>\<open>count\<close>: an index outside is an error of the model (the source
  has undefined behaviour there). \<^verbatim>\<open>rdepth--\<close> at zero wraps to \<open>2 ^ 64 - 1\<close>.
\<close>

definition recursion_step ::
  "platform \<Rightarrow> ('v, 'z) dft_plan_scheme \<Rightarrow> bool \<Rightarrow> ptr \<Rightarrow> ptr \<Rightarrow> ptr \<Rightarrow> ptr \<Rightarrow> bool \<Rightarrow>
   'v loop_state \<Rightarrow> error + 'v loop_state" where
  "recursion_step pf pl is_inverse out inp temp scratch in_scratch ls =
     (let r = rdepth ls; count = length (stages pl) in
      if \<not> r < 32 then Inl stack_index_out_of_range
      else if \<not> r < count then Inl stage_index_out_of_range
      else if stack ls ! r = repeats (stages pl ! r)
      then Inr (ls\<lparr>stack := (stack ls)[r := 0],
                   rdepth := (if r = 0 then 2 ^ 64 - 1 else r - 1)\<rparr>)
      else
        let rout = select_out pl r out scratch;
            rin = select_in pl r out inp scratch in_scratch;
            ls1 = ls\<lparr>st := call_stage pl r is_inverse (complex_add pf rout (offset ls))
                               (complex_add pf rin (offset ls)) temp (st ls),
                    offset := offset ls + out_offset (stages pl ! r),
                    stack := (stack ls)[r := stack ls ! r + 1]\<rparr>
        in if r < count - 1 \<and> recursion (stages pl ! (r + 1))
           then Inr (ls1\<lparr>rdepth := r + 1\<rparr>)
           else Inr (ls1\<lparr>maxdepth := r\<rparr>))"

text \<open>\<^verbatim>\<open>do { ... } while (rdepth != depth);\<close>\<close>

partial_function (option) recursion_loop ::
  "platform \<Rightarrow> ('v, 'z) dft_plan_scheme \<Rightarrow> bool \<Rightarrow> ptr \<Rightarrow> ptr \<Rightarrow> ptr \<Rightarrow> ptr \<Rightarrow> bool \<Rightarrow>
   nat \<Rightarrow> 'v loop_state \<Rightarrow> (error + 'v loop_state) option" where
  "recursion_loop pf pl is_inverse out inp temp scratch in_scratch depth ls =
     (case recursion_step pf pl is_inverse out inp temp scratch in_scratch ls of
        Inl e \<Rightarrow> Some (Inl e)
      | Inr ls' \<Rightarrow>
          if rdepth ls' \<noteq> depth
          then recursion_loop pf pl is_inverse out inp temp scratch in_scratch depth ls'
          else Some (Inr ls'))"

text \<open>\<^verbatim>\<open>for (size_t depth = 0; depth < count;) { ... }\<close>; \<^verbatim>\<open>stack\<close> lives across its passes.\<close>

partial_function (option) stage_loop ::
  "platform \<Rightarrow> ('v, 'z) dft_plan_scheme \<Rightarrow> bool \<Rightarrow> ptr \<Rightarrow> ptr \<Rightarrow> ptr \<Rightarrow> ptr \<Rightarrow> bool \<Rightarrow>
   nat \<Rightarrow> size_t list \<Rightarrow> 'v state \<Rightarrow> (error + 'v state) option" where
  "stage_loop pf pl is_inverse out inp temp scratch in_scratch depth stk s =
     (if depth < length (stages pl)
      then
        if recursion (stages pl ! depth)
        then
          Option.bind
            (recursion_loop pf pl is_inverse out inp temp scratch in_scratch depth
               \<lparr>stack = stk, offset = 0, rdepth = depth, maxdepth = depth, st = s\<rparr>)
            (\<lambda>r. case r of
                Inl e \<Rightarrow> Some (Inl e)
              | Inr ls \<Rightarrow>
                  stage_loop pf pl is_inverse out inp temp scratch in_scratch
                    (maxdepth ls + 1) (stack ls) (st ls))
        else
          stage_loop pf pl is_inverse out inp temp scratch in_scratch (depth + 1) stk
            (call_stage pl depth is_inverse (select_out pl depth out scratch)
               (select_in pl depth out inp scratch in_scratch) temp s)
      else Some (Inr s))"

text \<open>
  \<^verbatim>\<open>execute_dft\<close>. On an empty \<^verbatim>\<open>stages\<close> the source reads \<^verbatim>\<open>stages[0]->can_inplace\<close> out
  of range, right after the test of the fast path.
\<close>

definition execute_dft ::
  "platform \<Rightarrow> ('v, 'z) dft_plan_scheme \<Rightarrow> bool \<Rightarrow> ptr \<Rightarrow> ptr \<Rightarrow> ptr \<Rightarrow> 'v state \<Rightarrow>
   (error + 'v state) option" where
  "execute_dft pf pl is_inverse out inp temp s =
     (if length (stages pl) = 1 \<and> (can_inplace (stages pl ! 0) \<or> inp \<noteq> out)
      then Some (Inr (call_stage pl 0 is_inverse out inp temp s))
      else if stages pl = [] then Some (Inl stage_index_out_of_range)
      else
        let scratch = byte_sub (byte_add temp (temp_size_dft pl))
                        (align_up pf (sizeof_complex pf * size_dft pl) (native_cache_alignment pf));
            in_scratch = (\<not> can_inplace (stages pl ! 0) \<and> inp = out);
            s1 = (if in_scratch then do_memcpy scratch inp (sizeof_complex pf * size_dft pl) s
                  else s)
        in stage_loop pf pl is_inverse out inp temp scratch in_scratch 0 (replicate 32 0) s1)"

section \<open>The traversal as a recursive program\<close>

text \<open>
  \<open>iterate_level n body off\<close> runs \<open>body\<close> \<open>n\<close> times, one after the other; each run
  receives the offset the previous one left and returns its calls and the new offset.
\<close>

primrec iterate_level ::
  "nat \<Rightarrow> (size_t \<Rightarrow> 'e list \<times> size_t) \<Rightarrow> size_t \<Rightarrow> 'e list \<times> size_t" where
  "iterate_level 0 body off = ([], off)"
| "iterate_level (Suc n) body off =
     (let (es, off1) = body off; (es', off2) = iterate_level n body off1
      in (es @ es', off2))"

text \<open>
  Depth-first descent through the levels \<open>ks\<close> (stage indices, outermost first): a level
  runs its stage \<^verbatim>\<open>repeats\<close> times; each repeat calls the stage at the current offset,
  advances the offset by \<^verbatim>\<open>out_offset\<close> and descends into the remaining levels.
\<close>

primrec descend ::
  "('v, 'z) dft_stage_scheme list \<Rightarrow> (nat \<Rightarrow> size_t \<Rightarrow> 'e) \<Rightarrow> nat list \<Rightarrow> size_t \<Rightarrow>
   'e list \<times> size_t" where
  "descend ss ev [] = (\<lambda>off. ([], off))"
| "descend ss ev (k # ks) =
     (\<lambda>off. iterate_level (unat (repeats (ss ! k)))
        (\<lambda>o1. let (es, o2) = descend ss ev ks (o1 + out_offset (ss ! k)) in (ev k o1 # es, o2))
        off)"

text \<open>
  The run of recursion stages that starts at \<open>d\<close> ends at \<open>deepest ss d\<close>: the stages
  after \<open>d\<close> belong to it as long as they are marked \<^verbatim>\<open>recursion\<close>.
\<close>

definition deepest :: "('v, 'z) dft_stage_scheme list \<Rightarrow> nat \<Rightarrow> nat" where
  "deepest ss d = d + length (takeWhile recursion (drop (Suc d) ss))"

text \<open>
  The stages from \<open>depth\<close> on, in order: a stage not marked \<^verbatim>\<open>recursion\<close> is called once
  (\<open>single\<close>), a run of recursion stages from \<open>d\<close> to \<open>e\<close> contributes \<open>run d e\<close>.
\<close>

function pipeline ::
  "('v, 'z) dft_stage_scheme list \<Rightarrow> (nat \<Rightarrow> nat \<Rightarrow> 'e list) \<Rightarrow> (nat \<Rightarrow> 'e) \<Rightarrow> nat \<Rightarrow> 'e list"
  where
  "pipeline ss run single depth =
     (if depth < length ss
      then
        if recursion (ss ! depth)
        then run depth (deepest ss depth) @ pipeline ss run single (Suc (deepest ss depth))
        else single depth # pipeline ss run single (Suc depth)
      else [])"
  by pat_completeness auto
termination
  by (relation "measure (\<lambda>(ss, run, single, depth). length ss - depth)")
    (auto simp: deepest_def)

text \<open>The call of stage \<open>k\<close> at offset \<open>off\<close>, with the buffers \<^verbatim>\<open>execute_dft\<close> selects.\<close>

definition stage_event ::
  "platform \<Rightarrow> ('v, 'z) dft_plan_scheme \<Rightarrow> bool \<Rightarrow> ptr \<Rightarrow> ptr \<Rightarrow> ptr \<Rightarrow> ptr \<Rightarrow> bool \<Rightarrow>
   nat \<Rightarrow> size_t \<Rightarrow> event" where
  "stage_event pf pl is_inverse out inp temp scratch in_scratch k off =
     Exec_stage k is_inverse
       (complex_add pf (select_out pl k out scratch) off)
       (complex_add pf (select_in pl k out inp scratch in_scratch) off) temp"

text \<open>
  The reference traversal of a run, as the specification words it: every level of the
  run, the outermost included, runs its stage \<^verbatim>\<open>repeats\<close> times.
\<close>

definition reference_run ::
  "('v, 'z) dft_stage_scheme list \<Rightarrow> (nat \<Rightarrow> size_t \<Rightarrow> 'e) \<Rightarrow> nat \<Rightarrow> nat \<Rightarrow> 'e list" where
  "reference_run ss ev d e = fst (descend ss ev [d..<Suc e] 0)"

text \<open>
  The traversal of a run in which the outermost stage is called once, at offset 0, and
  the levels below it are traversed depth-first from the offset that call leaves.
\<close>

definition outermost_once_run ::
  "('v, 'z) dft_stage_scheme list \<Rightarrow> (nat \<Rightarrow> size_t \<Rightarrow> 'e) \<Rightarrow> nat \<Rightarrow> nat \<Rightarrow> 'e list" where
  "outermost_once_run ss ev d e =
     ev d 0 # fst (descend ss ev [Suc d..<Suc e] (0 + out_offset (ss ! d)))"

text \<open>Replaying a logged call on a state. A plan has no packing stage of its own.\<close>

fun run_event :: "('v, 'z) dft_plan_scheme \<Rightarrow> event \<Rightarrow> 'v state \<Rightarrow> 'v state" where
  "run_event pl (Exec_stage k is_inverse out inp temp) s = call_stage pl k is_inverse out inp temp s"
| "run_event pl (Memcpy dst src n) s = do_memcpy dst src n s"
| "run_event pl (Exec_fmt is_inverse out inp temp) s =
     s\<lparr>trace := trace s @ [Exec_fmt is_inverse out inp temp]\<rparr>"

definition run_events :: "('v, 'z) dft_plan_scheme \<Rightarrow> event list \<Rightarrow> 'v state \<Rightarrow> 'v state" where
  "run_events pl es s = foldl (\<lambda>s' e. run_event pl e s') s es"


text \<open>The scratch pointer and the \<^verbatim>\<open>in_scratch\<close> flag that \<^verbatim>\<open>execute_dft\<close> computes.\<close>

definition scratch_buffer :: "platform \<Rightarrow> ('v, 'z) dft_plan_scheme \<Rightarrow> ptr \<Rightarrow> ptr" where
  "scratch_buffer pf pl temp =
     byte_sub (byte_add temp (temp_size_dft pl))
       (align_up pf (sizeof_complex pf * size_dft pl) (native_cache_alignment pf))"

definition input_in_scratch :: "('v, 'z) dft_plan_scheme \<Rightarrow> ptr \<Rightarrow> ptr \<Rightarrow> bool" where
  "input_in_scratch pl out inp = (\<not> can_inplace (stages pl ! 0) \<and> inp = out)"

definition fast_path :: "('v, 'z) dft_plan_scheme \<Rightarrow> ptr \<Rightarrow> ptr \<Rightarrow> bool" where
  "fast_path pl out inp =
     (length (stages pl) = 1 \<and> (can_inplace (stages pl ! 0) \<or> inp \<noteq> out))"

text \<open>
  All the calls of one \<^verbatim>\<open>execute_dft\<close>, in order, when the runs of recursion stages are
  traversed as \<open>run\<close> says: the single call of the fast path, or else the copy of the
  input (if any) followed by the calls of the stages.
\<close>

definition plan_events ::
  "('v dft_stage list \<Rightarrow> (nat \<Rightarrow> size_t \<Rightarrow> event) \<Rightarrow> nat \<Rightarrow> nat \<Rightarrow> event list) \<Rightarrow>
   platform \<Rightarrow> ('v, 'z) dft_plan_scheme \<Rightarrow> bool \<Rightarrow> ptr \<Rightarrow> ptr \<Rightarrow> ptr \<Rightarrow> event list" where
  "plan_events run pf pl is_inverse out inp temp =
     (if fast_path pl out inp then [Exec_stage 0 is_inverse out inp temp]
      else
        let scratch = scratch_buffer pf pl temp;
            in_scratch = input_in_scratch pl out inp;
            ev = stage_event pf pl is_inverse out inp temp scratch in_scratch
        in (if in_scratch then [Memcpy scratch inp (sizeof_complex pf * size_dft pl)] else [])
           @ pipeline (stages pl) (run (stages pl) ev) (\<lambda>k. ev k 0) 0)"

text \<open>The block a pointer points into.\<close>

fun buffer :: "ptr \<Rightarrow> nat option" where
  "buffer nullptr = None"
| "buffer (Ptr b a) = Some b"

text \<open>
  The call of stage \<open>k\<close> as the specification routes it, \<open>off\<close> elements into the buffers:
  the output pointer is the scratch pointer if \<^verbatim>\<open>to_scratch\<close> of stage \<open>k\<close> is set and
  \<^verbatim>\<open>out\<close> otherwise; for \<open>k > 0\<close> the input pointer is the buffer stage \<open>k - 1\<close> writes to
  (the scratch pointer if \<^verbatim>\<open>to_scratch\<close> of stage \<open>k - 1\<close> is set, \<^verbatim>\<open>out\<close> otherwise); stage 0
  reads the scratch pointer if the input was copied there, and \<^verbatim>\<open>in\<close> otherwise.
\<close>

definition routed_call ::
  "platform \<Rightarrow> ('v, 'z) dft_plan_scheme \<Rightarrow> bool \<Rightarrow> ptr \<Rightarrow> ptr \<Rightarrow> ptr \<Rightarrow> nat \<Rightarrow> size_t \<Rightarrow> event" where
  "routed_call pf pl is_inverse out inp temp k off =
     Exec_stage k is_inverse
       (complex_add pf
          (if to_scratch (stages pl ! k) then scratch_buffer pf pl temp else out) off)
       (complex_add pf
          (if k = 0
           then (if \<not> can_inplace (stages pl ! 0) \<and> inp = out then scratch_buffer pf pl temp
                 else inp)
           else (if to_scratch (stages pl ! (k - 1)) then scratch_buffer pf pl temp else out))
          off)
       temp"

fun is_memcpy :: "event \<Rightarrow> bool" where
  "is_memcpy (Memcpy dst src n) = True"
| "is_memcpy (Exec_stage k is_inverse rout rin temp) = False"
| "is_memcpy (Exec_fmt is_inverse rout rin temp) = False"



text \<open>
  The byte \<open>j\<close> bytes after a pointer (\<^verbatim>\<open>p[j]\<close> on \<^verbatim>\<open>u8*\<close>), and the cells that make up the
  \<open>n\<close> bytes at a pointer. \<^verbatim>\<open>nullptr\<close> has no cells.
\<close>

fun peek :: "'v memory \<Rightarrow> ptr \<Rightarrow> int \<Rightarrow> 'v option" where
  "peek m nullptr j = None"
| "peek m (Ptr b a) j = Some (m b (a + j))"

fun within :: "ptr \<Rightarrow> size_t \<Rightarrow> nat \<Rightarrow> int \<Rightarrow> bool" where
  "within nullptr n b a = False"
| "within (Ptr b0 a0) n b a = (b = b0 \<and> a0 \<le> a \<and> a < a0 + int (unat n))"

section \<open>\<^verbatim>\<open>dft_plan_real::execute\<close>\<close>

text \<open>The call \<^verbatim>\<open>fmt_stage->execute(tag, out, in, temp)\<close>, logged.\<close>

definition call_fmt_stage ::
  "('v, 'z) dft_plan_real_scheme \<Rightarrow> bool \<Rightarrow> ptr \<Rightarrow> ptr \<Rightarrow> ptr \<Rightarrow> 'v state \<Rightarrow> 'v state" where
  "call_fmt_stage rp is_inverse out inp temp s =
     s\<lparr>mem := execute_stage (fmt_stage rp) is_inverse out inp temp (mem s),
       trace := trace s @ [Exec_fmt is_inverse out inp temp]\<rparr>"

text \<open>
  \<^verbatim>\<open>execute(complex<T>* out, const T* in, u8* temp)\<close>: \<^verbatim>\<open>ptr_cast\<close> keeps the address.
\<close>

definition execute_real_to_complex ::
  "platform \<Rightarrow> ('v, 'z) dft_plan_real_scheme \<Rightarrow> ptr \<Rightarrow> ptr \<Rightarrow> ptr \<Rightarrow> 'v state \<Rightarrow>
   (error + 'v state) option" where
  "execute_real_to_complex pf rp out inp temp s =
     (case execute_dft pf rp False out inp temp s of
        None \<Rightarrow> None
      | Some (Inl e) \<Rightarrow> Some (Inl e)
      | Some (Inr s1) \<Rightarrow> Some (Inr (call_fmt_stage rp False out out nullptr s1)))"

text \<open>\<^verbatim>\<open>execute(T* out, const complex<T>* in, u8* temp)\<close>\<close>

definition execute_complex_to_real ::
  "platform \<Rightarrow> ('v, 'z) dft_plan_real_scheme \<Rightarrow> ptr \<Rightarrow> ptr \<Rightarrow> ptr \<Rightarrow> 'v state \<Rightarrow>
   (error + 'v state) option" where
  "execute_complex_to_real pf rp out inp temp s =
     (let outdata = out;
          s1 = call_fmt_stage rp False outdata inp nullptr s
      in execute_dft pf rp True outdata outdata temp s1)"

text \<open>
  The two \<^verbatim>\<open>univector\<close> overloads; their arguments here are the \<^verbatim>\<open>data()\<close> pointers of the
  vectors.
\<close>

definition execute_real_to_complex_univector ::
  "platform \<Rightarrow> ('v, 'z) dft_plan_real_scheme \<Rightarrow> ptr \<Rightarrow> ptr \<Rightarrow> ptr \<Rightarrow> 'v state \<Rightarrow>
   (error + 'v state) option" where
  "execute_real_to_complex_univector pf rp out_data in_data temp_data s =
     (case execute_dft pf rp False out_data in_data temp_data s of
        None \<Rightarrow> None
      | Some (Inl e) \<Rightarrow> Some (Inl e)
      | Some (Inr s1) \<Rightarrow> Some (Inr (call_fmt_stage rp False out_data out_data nullptr s1)))"

definition execute_complex_to_real_univector ::
  "platform \<Rightarrow> ('v, 'z) dft_plan_real_scheme \<Rightarrow> ptr \<Rightarrow> ptr \<Rightarrow> ptr \<Rightarrow> 'v state \<Rightarrow>
   (error + 'v state) option" where
  "execute_complex_to_real_univector pf rp out_data in_data temp_data s =
     (let outdata = out_data;
          s1 = call_fmt_stage rp True outdata in_data nullptr s
      in execute_dft pf rp True outdata outdata temp_data s1)"

text \<open>
  What the specification says of the forward direction: the packing stage is the one
  that takes the raw real samples (the pointer \<^verbatim>\<open>in\<close>) as its input.
\<close>

fun packs_from :: "ptr \<Rightarrow> event \<Rightarrow> bool" where
  "packs_from p (Exec_fmt is_inverse rout rin temp) = (rin = p)"
| "packs_from p (Exec_stage k is_inverse rout rin temp) = False"
| "packs_from p (Memcpy dst src n) = False"

section \<open>\<^verbatim>\<open>fft_multiply\<close>, \<^verbatim>\<open>fft_multiply_accumulate\<close>\<close>

text \<open>
  \<^verbatim>\<open>complex<T>\<close> with its parts. Nothing is assumed of the arithmetic of \<^verbatim>\<open>T\<close> but that it
  has \<open>+\<close>, \<open>-\<close> and \<open>*\<close>.
\<close>

record 'a complex =
  real :: 'a
  imag :: 'a

text \<open>
  Modelled from the spec: the operators \<^verbatim>\<open>*\<close> and \<^verbatim>\<open>+\<close> of \<^verbatim>\<open>complex<T>\<close> are declared in
  \<^verbatim>\<open>simd/complex.hpp\<close>, which is not part of the sources; they are the complex product
  and the complex sum.
\<close>

definition cmul :: "('a::{plus,minus,times}) complex \<Rightarrow> 'a complex \<Rightarrow> 'a complex" where
  "cmul x y = \<lparr>real = real x * real y - imag x * imag y,
               imag = real x * imag y + imag x * real y\<rparr>"

definition cadd :: "('a::{plus,minus,times}) complex \<Rightarrow> 'a complex \<Rightarrow> 'a complex" where
  "cadd x y = \<lparr>real = real x + real y, imag = imag x + imag y\<rparr>"

text \<open>
  Modelled from the spec: the assignment of an elementwise expression to a \<^verbatim>\<open>univector\<close>
  is declared in \<^verbatim>\<open>base/univector.hpp\<close>, which is not part of the sources. The values
  of the expression overwrite the destination from index 0 on; on spectra of equal
  length this overwrites the destination in full.
\<close>

definition assign_expression :: "'b list \<Rightarrow> 'b list \<Rightarrow> 'b list" where
  "assign_expression dest e = take (length dest) e @ drop (length e) dest"

text \<open>
  The three helpers return the new contents of \<^verbatim>\<open>dest\<close>. \<^verbatim>\<open>operator[]\<close> of a \<^verbatim>\<open>univector\<close>
  is unchecked: index 0 of an empty vector is an error of the model.
\<close>

definition fft_multiply ::
  "('a::{plus,minus,times}) complex list \<Rightarrow> 'a complex list \<Rightarrow> 'a complex list \<Rightarrow>
   dft_pack_format \<Rightarrow> error + 'a complex list" where
  "fft_multiply dest src1 src2 fm =
     (if src1 = [] \<or> src2 = [] then Inl univector_index_out_of_range
      else
        let f0 = \<lparr>real = real (src1 ! 0) * real (src2 ! 0),
                  imag = imag (src1 ! 0) * imag (src2 ! 0)\<rparr>;
            dest1 = assign_expression dest (map2 cmul src1 src2)
        in if fm = Perm
           then (if dest1 = [] then Inl univector_index_out_of_range else Inr (dest1[0 := f0]))
           else Inr dest1)"

definition fft_multiply_accumulate ::
  "('a::{plus,minus,times}) complex list \<Rightarrow> 'a complex list \<Rightarrow> 'a complex list \<Rightarrow>
   dft_pack_format \<Rightarrow> error + 'a complex list" where
  "fft_multiply_accumulate dest src1 src2 fm =
     (if dest = [] \<or> src1 = [] \<or> src2 = [] then Inl univector_index_out_of_range
      else
        let f0 = \<lparr>real = real (dest ! 0) + real (src1 ! 0) * real (src2 ! 0),
                  imag = imag (dest ! 0) + imag (src1 ! 0) * imag (src2 ! 0)\<rparr>;
            dest1 = assign_expression dest (map2 cadd dest (map2 cmul src1 src2))
        in if fm = Perm then Inr (dest1[0 := f0]) else Inr dest1)"

definition fft_multiply_accumulate3 ::
  "('a::{plus,minus,times}) complex list \<Rightarrow> 'a complex list \<Rightarrow> 'a complex list \<Rightarrow>
   'a complex list \<Rightarrow> dft_pack_format \<Rightarrow> error + 'a complex list" where
  "fft_multiply_accumulate3 dest src1 src2 src3 fm =
     (if src1 = [] \<or> src2 = [] \<or> src3 = [] then Inl univector_index_out_of_range
      else
        let f0 = \<lparr>real = real (src1 ! 0) + real (src2 ! 0) * real (src3 ! 0),
                  imag = imag (src1 ! 0) + imag (src2 ! 0) * imag (src3 ! 0)\<rparr>;
            dest1 = assign_expression dest (map2 cadd src1 (map2 cmul src2 src3))
        in if fm = Perm
           then (if dest1 = [] then Inl univector_index_out_of_range else Inr (dest1[0 := f0]))
           else Inr dest1)"

text \<open>The value the specification gives to bin 0 of a product, whatever the format.\<close>

definition bin0_product :: "('a::{plus,minus,times}) complex \<Rightarrow> 'a complex \<Rightarrow> 'a complex" where
  "bin0_product x y = \<lparr>real = real x * real y, imag = imag x * imag y\<rparr>"

section \<open>Concrete plans\<close>

text \<open>A stage with the default member initialisers of \<^verbatim>\<open>dft_stage\<close> and the two kernels given.\<close>

definition dft_stage_init ::
  "(ptr \<Rightarrow> ptr \<Rightarrow> ptr \<Rightarrow> 'v memory \<Rightarrow> 'v memory) \<Rightarrow>
   (ptr \<Rightarrow> ptr \<Rightarrow> ptr \<Rightarrow> 'v memory \<Rightarrow> 'v memory) \<Rightarrow> 'v dft_stage" where
  "dft_stage_init direct invert =
     \<lparr>radix = 0, stage_size = 0, data_size = 0, temp_size = 0, data = nullptr, repeats = 1,
      out_offset = 0, blocks = 0, user = 0, name = [], recursion = False, can_inplace = True,
      inplace = False, to_scratch = False, need_reorder = True,
      do_execute_direct = direct, do_execute_invert = invert\<rparr>"

text \<open>A kernel that stores \<open>v\<close> at its output pointer and touches nothing else.\<close>

fun kernel_mark :: "'v \<Rightarrow> ptr \<Rightarrow> ptr \<Rightarrow> ptr \<Rightarrow> 'v memory \<Rightarrow> 'v memory" where
  "kernel_mark v nullptr inp temp m = m"
| "kernel_mark v (Ptr b a) inp temp m = m(b := (m b)(a := v))"

text \<open>A kernel that copies the value at its input pointer to its output pointer.\<close>

fun kernel_copy :: "ptr \<Rightarrow> ptr \<Rightarrow> ptr \<Rightarrow> 'v memory \<Rightarrow> 'v memory" where
  "kernel_copy (Ptr b a) (Ptr b' a') temp m = m(b := (m b)(a := m b' a'))"
| "kernel_copy out inp temp m = m"

definition example_platform :: platform where
  "example_platform =
     \<lparr>sizeof_complex = 8, native_cache_alignment = 64,
      align_up = (\<lambda>x a. (x + a - 1) div a * a)\<rparr>"

definition example_state :: "nat state" where
  "example_state = \<lparr>mem = (\<lambda>b a. 0), trace = []\<rparr>"

text \<open>A state whose cells all hold 7, except those of block 3, which hold 0.\<close>

definition example_input :: "nat state" where
  "example_input = \<lparr>mem = (\<lambda>b a. if b = 3 then 0 else 7), trace = []\<rparr>"

definition example_stage :: "nat dft_stage" where
  "example_stage = dft_stage_init (kernel_mark 1) (kernel_mark 2)"

text \<open>One stage that can run in place.\<close>

definition plan_single :: "nat dft_plan" where
  "plan_single =
     \<lparr>size_dft = 16, temp_size_dft = 256, data_size_dft = 0, stages = [example_stage]\<rparr>"

text \<open>A run of two recursion stages; the outermost has \<^verbatim>\<open>repeats = 2\<close>.\<close>

definition plan_nested :: "nat dft_plan" where
  "plan_nested =
     \<lparr>size_dft = 16, temp_size_dft = 256, data_size_dft = 0,
      stages = [example_stage\<lparr>recursion := True, repeats := 2, out_offset := 4\<rparr>,
                example_stage\<lparr>recursion := True, repeats := 1, to_scratch := True\<rparr>]\<rparr>"

text \<open>
  A first stage that cannot run in place, a run of three recursion stages, and a last
  stage that writes to \<^verbatim>\<open>out\<close>.
\<close>

definition plan_mixed :: "nat dft_plan" where
  "plan_mixed =
     \<lparr>size_dft = 16, temp_size_dft = 256, data_size_dft = 0,
      stages = [example_stage\<lparr>can_inplace := False, to_scratch := True\<rparr>,
                example_stage\<lparr>recursion := True, repeats := 3, out_offset := 1\<rparr>,
                example_stage\<lparr>recursion := True, repeats := 2, to_scratch := True\<rparr>,
                example_stage\<lparr>recursion := True, repeats := 2, out_offset := 2\<rparr>,
                example_stage]\<rparr>"

text \<open>
  A real plan of one copying stage; the two kernels of its packing stage store different
  values.
\<close>

definition plan_real :: "nat dft_plan_real" where
  "plan_real =
     \<lparr>size_dft = 16, temp_size_dft = 256, data_size_dft = 0,
      stages = [dft_stage_init kernel_copy kernel_copy],
      size_real = 32, fmt = CCs, fmt_stage = dft_stage_init (kernel_mark 3) (kernel_mark 4)\<rparr>"

text \<open>Thirty-two plain stages followed by one recursion stage.\<close>

definition plan_long :: "nat dft_plan" where
  "plan_long =
     \<lparr>size_dft = 16, temp_size_dft = 256, data_size_dft = 0,
      stages = replicate 32 example_stage @ [example_stage\<lparr>recursion := True\<rparr>]\<rparr>"

text \<open>The same thirty-three stages with the recursion stage first.\<close>

definition plan_wide :: "nat dft_plan" where
  "plan_wide =
     \<lparr>size_dft = 16, temp_size_dft = 256, data_size_dft = 0,
      stages = example_stage\<lparr>recursion := True\<rparr> # replicate 32 example_stage\<rparr>"


section \<open>Plans within the bounds of \<^verbatim>\<open>execute_dft\<close>\<close>

text \<open>
  \<^verbatim>\<open>stack\<close> is indexed by the index of the stage, so the 32 levels bound the number of
  stages. A plan is within bounds when it has between 1 and 32 stages and every stage
  marked \<^verbatim>\<open>recursion\<close> has \<^verbatim>\<open>repeats\<close> of at least 1.
\<close>

definition plan_in_bounds :: "('v, 'z) dft_plan_scheme \<Rightarrow> bool" where
  "plan_in_bounds pl =
     (stages pl \<noteq> [] \<and> length (stages pl) \<le> 32 \<and>
      list_all (\<lambda>stg. recursion stg \<longrightarrow> repeats stg \<noteq> 0) (stages pl))"

text \<open>
  Only the stages marked \<^verbatim>\<open>recursion\<close> use their entry of \<^verbatim>\<open>stack\<close>. The counters of a plan
  are in range when the plan is not empty and every stage marked \<^verbatim>\<open>recursion\<close> is among
  the first 32 stages and has \<^verbatim>\<open>repeats\<close> of at least 1.
\<close>

definition counters_in_range :: "('v, 'z) dft_plan_scheme \<Rightarrow> bool" where
  "counters_in_range pl =
     (stages pl \<noteq> [] \<and>
      list_all (\<lambda>k. recursion (stages pl ! k) \<longrightarrow> k < 32 \<and> repeats (stages pl ! k) \<noteq> 0)
        [0..<length (stages pl)])"

text \<open>
  The bound as the specification words it. The levels of a traversal are the stages of
  one run of consecutive recursion stages, so the number of levels a plan needs is the
  length of its longest run; a plan fits the bound when that is at most 32 and every
  stage marked \<^verbatim>\<open>recursion\<close> has \<^verbatim>\<open>repeats\<close> of at least 1.
\<close>

fun levels_from :: "('v, 'z) dft_stage_scheme list \<Rightarrow> nat \<Rightarrow> nat \<Rightarrow> nat" where
  "levels_from [] cur best = max cur best"
| "levels_from (stg # ss) cur best =
     (if recursion stg then levels_from ss (Suc cur) best
      else levels_from ss 0 (max cur best))"

definition recursion_levels :: "('v, 'z) dft_stage_scheme list \<Rightarrow> nat" where
  "recursion_levels ss = levels_from ss 0 0"

definition fits_level_bound :: "('v, 'z) dft_plan_scheme \<Rightarrow> bool" where
  "fits_level_bound pl =
     (recursion_levels (stages pl) \<le> 32 \<and>
      list_all (\<lambda>stg. repeats stg \<noteq> 0) (filter recursion (stages pl)))"

section \<open>Auxiliary notions for the proofs\<close>

text \<open>The test at the end of the \<^verbatim>\<open>do ... while\<close> loop, applied to the state a pass left.\<close>

definition continue_loop ::
  "platform \<Rightarrow> ('v, 'z) dft_plan_scheme \<Rightarrow> bool \<Rightarrow> ptr \<Rightarrow> ptr \<Rightarrow> ptr \<Rightarrow> ptr \<Rightarrow> bool \<Rightarrow>
   nat \<Rightarrow> 'v loop_state \<Rightarrow> (error + 'v loop_state) option" where
  "continue_loop pf pl is_inverse out inp temp scratch in_scratch depth ls =
     (if rdepth ls \<noteq> depth
      then recursion_loop pf pl is_inverse out inp temp scratch in_scratch depth ls
      else Some (Inr ls))"

text \<open>One repeat of level \<open>k\<close> in \<open>descend\<close>: the call, then the levels \<open>ks\<close> below.\<close>

definition level_body ::
  "('v, 'z) dft_stage_scheme list \<Rightarrow> (nat \<Rightarrow> size_t \<Rightarrow> 'e) \<Rightarrow> nat \<Rightarrow> nat list \<Rightarrow> size_t \<Rightarrow>
   'e list \<times> size_t" where
  "level_body ss ev k ks =
     (\<lambda>o1. let (es, o2) = descend ss ev ks (o1 + out_offset (ss ! k)) in (ev k o1 # es, o2))"

text \<open>
  \<open>s'\<close> is reached from \<open>s\<close> by calls of stages of the plan, each with the buffers
  \<^verbatim>\<open>execute_dft\<close> selects for it.
\<close>

definition only_stage_calls ::
  "platform \<Rightarrow> ('v, 'z) dft_plan_scheme \<Rightarrow> bool \<Rightarrow> ptr \<Rightarrow> ptr \<Rightarrow> ptr \<Rightarrow> ptr \<Rightarrow> bool \<Rightarrow>
   'v state \<Rightarrow> 'v state \<Rightarrow> bool" where
  "only_stage_calls pf pl is_inverse out inp temp scratch in_scratch s s' =
     (\<exists>es. s' = run_events pl es s \<and>
        (\<forall>e \<in> set es. \<exists>k off. k < length (stages pl) \<and>
           e = stage_event pf pl is_inverse out inp temp scratch in_scratch k off))"

section \<open>The iteration in \<^verbatim>\<open>execute_dft\<close> computes the recursive traversal\<close>

lemma unat_counter_Suc:
  fixes c r :: size_t
  assumes "c \<noteq> r" "unat c \<le> unat r"
  shows "unat (c + 1) = Suc (unat c)"
proof -
  have "unat c < unat r" using assms by (simp add: word_unat_eq_iff)
  moreover have "unat r < 2 ^ 64" using unsigned_less [of r, where 'a = nat] by simp
  ultimately have "unat c + unat (1 :: size_t) < 2 ^ LENGTH(64)" by simp
  then have "unat (c + 1) = unat c + unat (1 :: size_t)"
    by (simp only: unat_add_lem [THEN iffD1])
  then show ?thesis by simp
qed

lemma descend_Cons:
  "descend ss ev (k # ks) off = iterate_level (unat (repeats (ss ! k))) (level_body ss ev k ks) off"
  by (simp add: level_body_def)

lemma run_events_Nil [simp]: "run_events pl [] s = s"
  by (simp add: run_events_def)

lemma run_events_Cons [simp]: "run_events pl (e # es) s = run_events pl es (run_event pl e s)"
  by (simp add: run_events_def)

lemma run_events_append [simp]:
  "run_events pl (es @ es') s = run_events pl es' (run_events pl es s)"
  by (simp add: run_events_def)

lemma recursion_loop_unfold:
  "recursion_loop pf pl iv out inp temp scratch insc depth ls =
     (case recursion_step pf pl iv out inp temp scratch insc ls of
        Inl e \<Rightarrow> Some (Inl e)
      | Inr ls' \<Rightarrow> continue_loop pf pl iv out inp temp scratch insc depth ls')"
  by (subst recursion_loop.simps) (simp add: continue_loop_def split: sum.splits)

lemma step_reset:
  assumes "l < 32" "l < length (stages pl)" "stk ! l = repeats (stages pl ! l)" "0 < l"
  shows "recursion_step pf pl iv out inp temp scratch insc
           \<lparr>stack = stk, offset = off, rdepth = l, maxdepth = md, st = s\<rparr> =
         Inr \<lparr>stack = stk[l := 0], offset = off, rdepth = l - 1, maxdepth = md, st = s\<rparr>"
  using assms by (simp add: recursion_step_def)

lemma step_descend:
  assumes "l < 32" "l < length (stages pl)" "stk ! l \<noteq> repeats (stages pl ! l)"
    "Suc l < length (stages pl)" "recursion (stages pl ! Suc l)"
  shows "recursion_step pf pl iv out inp temp scratch insc
           \<lparr>stack = stk, offset = off, rdepth = l, maxdepth = md, st = s\<rparr> =
         Inr \<lparr>stack = stk[l := stk ! l + 1], offset = off + out_offset (stages pl ! l),
              rdepth = Suc l, maxdepth = md,
              st = run_event pl (stage_event pf pl iv out inp temp scratch insc l off) s\<rparr>"
  using assms by (simp add: recursion_step_def stage_event_def Let_def)

lemma step_stay:
  assumes "l < 32" "l < length (stages pl)" "stk ! l \<noteq> repeats (stages pl ! l)"
    "\<not> (l < length (stages pl) - 1 \<and> recursion (stages pl ! (l + 1)))"
  shows "recursion_step pf pl iv out inp temp scratch insc
           \<lparr>stack = stk, offset = off, rdepth = l, maxdepth = md, st = s\<rparr> =
         Inr \<lparr>stack = stk[l := stk ! l + 1], offset = off + out_offset (stages pl ! l),
              rdepth = l, maxdepth = l,
              st = run_event pl (stage_event pf pl iv out inp temp scratch insc l off) s\<rparr>"
  using assms by (simp add: recursion_step_def stage_event_def Let_def)

lemma iterate_level_Suc_fst:
  "fst (iterate_level (Suc n) body off) =
     fst (body off) @ fst (iterate_level n body (snd (body off)))"
  by (simp add: Let_def split: prod.splits)

lemma iterate_level_Suc_snd:
  "snd (iterate_level (Suc n) body off) = snd (iterate_level n body (snd (body off)))"
  by (simp add: Let_def split: prod.splits)

lemma level_body_fst:
  "fst (level_body ss ev k ks off) = ev k off # fst (descend ss ev ks (off + out_offset (ss ! k)))"
  by (simp add: level_body_def split: prod.splits)

lemma level_body_snd:
  "snd (level_body ss ev k ks off) = snd (descend ss ev ks (off + out_offset (ss ! k)))"
  by (simp add: level_body_def split: prod.splits)

lemma recursion_loop_level:
  fixes pl :: "('v, 'z) dft_plan_scheme"
  assumes e: "e < length (stages pl)" "e < 32"
    and last: "\<not> (e < length (stages pl) - 1 \<and> recursion (stages pl ! (e + 1)))"
    and rec: "\<forall>j. depth < j \<and> j \<le> e \<longrightarrow> recursion (stages pl ! j)"
    and rep: "\<forall>j. depth < j \<and> j \<le> e \<longrightarrow> repeats (stages pl ! j) \<noteq> 0"
  shows "\<lbrakk>e - l = m; depth < l; l \<le> e; length stk = 32;
          \<forall>j. l < j \<and> j \<le> e \<longrightarrow> stk ! j = 0;
          unat (stk ! l) \<le> unat (repeats (stages pl ! l));
          unat (repeats (stages pl ! l)) - unat (stk ! l) = n\<rbrakk> \<Longrightarrow>
     recursion_loop pf pl iv out inp temp scratch insc depth
       \<lparr>stack = stk, offset = off, rdepth = l, maxdepth = md, st = s\<rparr> =
     continue_loop pf pl iv out inp temp scratch insc depth
       \<lparr>stack = stk[l := 0],
        offset = snd (iterate_level n
                   (level_body (stages pl) (stage_event pf pl iv out inp temp scratch insc) l
                      [Suc l..<Suc e]) off),
        rdepth = l - 1, maxdepth = (if n = 0 then md else e),
        st = run_events pl (fst (iterate_level n
                   (level_body (stages pl) (stage_event pf pl iv out inp temp scratch insc) l
                      [Suc l..<Suc e]) off)) s\<rparr>"
proof (induction m arbitrary: l stk off md s n rule: less_induct)
  case (less m)
  note outer = less.IH
  let ?ev = "stage_event pf pl iv out inp temp scratch insc"
  let ?r = "repeats (stages pl ! l)"
  have l: "l < 32" "l < length (stages pl)" "0 < l"
    using less.prems e by auto
  from less.prems(4-7) show ?case
  proof (induction n arbitrary: stk off md s)
    case 0
    then have "stk ! l = ?r"
      by (simp add: word_unat_eq_iff)
    then show ?case
      using l by (simp add: recursion_loop_unfold step_reset)
  next
    case (Suc n')
    let ?c = "stk ! l"
    let ?stk1 = "stk[l := ?c + 1]"
    let ?s1 = "run_event pl (?ev l off) s"
    let ?off1 = "off + out_offset (stages pl ! l)"
    from Suc.prems have ne: "?c \<noteq> ?r" by auto
    have c1: "unat (?c + 1) = Suc (unat ?c)"
      using ne Suc.prems by (simp add: unat_counter_Suc)
    have len1: "length ?stk1 = 32" using Suc.prems by simp
    have at1: "?stk1 ! l = ?c + 1" using Suc.prems l by simp
    have le1: "unat (?stk1 ! l) \<le> unat ?r" using at1 c1 Suc.prems by simp
    have rem1: "unat ?r - unat (?stk1 ! l) = n'" using at1 c1 Suc.prems by simp
    have zero1: "\<forall>j. l < j \<and> j \<le> e \<longrightarrow> ?stk1 ! j = 0" using Suc.prems by simp
    show ?case
    proof (cases "l = e")
      case True
      have stay: "\<not> (l < length (stages pl) - 1 \<and> recursion (stages pl ! (l + 1)))"
        using last True by simp
      have "recursion_loop pf pl iv out inp temp scratch insc depth
              \<lparr>stack = stk, offset = off, rdepth = l, maxdepth = md, st = s\<rparr> =
            recursion_loop pf pl iv out inp temp scratch insc depth
              \<lparr>stack = ?stk1, offset = ?off1, rdepth = l, maxdepth = l, st = ?s1\<rparr>"
        using l ne less.prems(2)
        by (simp add: recursion_loop_unfold step_stay [OF l(1,2) ne stay] continue_loop_def)
      also have "\<dots> = continue_loop pf pl iv out inp temp scratch insc depth
          \<lparr>stack = ?stk1[l := 0],
           offset = snd (iterate_level n' (level_body (stages pl) ?ev l [Suc l..<Suc e]) ?off1),
           rdepth = l - 1, maxdepth = (if n' = 0 then l else e),
           st = run_events pl (fst (iterate_level n'
                  (level_body (stages pl) ?ev l [Suc l..<Suc e]) ?off1)) ?s1\<rparr>"
        by (rule Suc.IH [OF len1 zero1 le1 rem1])
      finally show ?thesis
        using True
        by (simp add: iterate_level_Suc_fst iterate_level_Suc_snd level_body_fst level_body_snd
            del: iterate_level.simps)
    next
      case False
      then have lt: "l < e" using less.prems by simp
      have next_rec: "Suc l < length (stages pl)" "recursion (stages pl ! Suc l)"
        using lt e rec less.prems by auto
      let ?n1 = "unat (repeats (stages pl ! Suc l))"
      let ?sub = "descend (stages pl) ?ev [Suc l..<Suc e] ?off1"
      have n1: "?n1 \<noteq> 0"
        using rep lt less.prems by (simp add: unat_eq_0)
      have stk1_next: "?stk1 ! Suc l = 0" using Suc.prems lt by simp
      have upt: "[Suc l..<Suc e] = Suc l # [Suc (Suc l)..<Suc e]"
        using lt by (simp add: upt_conv_Cons)
      have "recursion_loop pf pl iv out inp temp scratch insc depth
              \<lparr>stack = stk, offset = off, rdepth = l, maxdepth = md, st = s\<rparr> =
            recursion_loop pf pl iv out inp temp scratch insc depth
              \<lparr>stack = ?stk1, offset = ?off1, rdepth = Suc l, maxdepth = md, st = ?s1\<rparr>"
        using less.prems(2)
        by (simp add: recursion_loop_unfold step_descend [OF l(1,2) ne next_rec] continue_loop_def)
      also have "\<dots> = continue_loop pf pl iv out inp temp scratch insc depth
          \<lparr>stack = ?stk1[Suc l := 0],
           offset = snd (iterate_level ?n1
                      (level_body (stages pl) ?ev (Suc l) [Suc (Suc l)..<Suc e]) ?off1),
           rdepth = Suc l - 1, maxdepth = (if ?n1 = 0 then md else e),
           st = run_events pl (fst (iterate_level ?n1
                      (level_body (stages pl) ?ev (Suc l) [Suc (Suc l)..<Suc e]) ?off1)) ?s1\<rparr>"
      proof (rule outer [of "e - Suc l" "Suc l"])
        show "e - Suc l < m" using lt less.prems by simp
        show "e - Suc l = e - Suc l" by simp
        show "depth < Suc l" using less.prems by simp
        show "Suc l \<le> e" using lt by simp
        show "length ?stk1 = 32" by (rule len1)
        show "\<forall>j. Suc l < j \<and> j \<le> e \<longrightarrow> ?stk1 ! j = 0" using zero1 by simp
        show "unat (?stk1 ! Suc l) \<le> ?n1" using stk1_next by simp
        show "?n1 - unat (?stk1 ! Suc l) = ?n1" using stk1_next by simp
      qed
      also have "\<dots> = recursion_loop pf pl iv out inp temp scratch insc depth
          \<lparr>stack = ?stk1, offset = snd ?sub, rdepth = l, maxdepth = e,
           st = run_events pl (fst ?sub) ?s1\<rparr>"
      proof -
        have sub_eq: "?sub = iterate_level ?n1
            (level_body (stages pl) ?ev (Suc l) [Suc (Suc l)..<Suc e]) ?off1"
          by (subst upt) (rule descend_Cons)
        have same: "?stk1[Suc l := 0] = ?stk1"
          by (subst stk1_next [symmetric]) (rule list_update_id)
        show ?thesis
          unfolding sub_eq same using n1 less.prems(2)
          by (simp add: continue_loop_def del: upt_Suc)
      qed
      also have "\<dots> = continue_loop pf pl iv out inp temp scratch insc depth
          \<lparr>stack = ?stk1[l := 0],
           offset = snd (iterate_level n' (level_body (stages pl) ?ev l [Suc l..<Suc e]) (snd ?sub)),
           rdepth = l - 1, maxdepth = (if n' = 0 then e else e),
           st = run_events pl (fst (iterate_level n'
                  (level_body (stages pl) ?ev l [Suc l..<Suc e]) (snd ?sub)))
                  (run_events pl (fst ?sub) ?s1)\<rparr>"
        by (rule Suc.IH [OF len1 zero1 le1 rem1])
      finally show ?thesis
        by (simp add: iterate_level_Suc_fst iterate_level_Suc_snd level_body_fst level_body_snd
            del: iterate_level.simps descend.simps upt_Suc)
    qed
  qed
qed

declare pipeline.simps [simp del]

lemma deepest_ge: "d \<le> deepest ss d"
  by (simp add: deepest_def)

lemma deepest_less:
  assumes "d < length ss"
  shows "deepest ss d < length ss"
proof -
  have "length (takeWhile recursion (drop (Suc d) ss)) \<le> length (drop (Suc d) ss)"
    by (rule length_takeWhile_le)
  then show ?thesis using assms by (simp add: deepest_def)
qed

lemma deepest_recursion:
  assumes "d < j" "j \<le> deepest ss d"
  shows "recursion (ss ! j)"
proof -
  let ?xs = "drop (Suc d) ss"
  let ?t = "takeWhile recursion ?xs"
  have i: "j - Suc d < length ?t" using assms by (simp add: deepest_def)
  then have "?t ! (j - Suc d) \<in> set ?t" by (rule nth_mem)
  then have "recursion (?t ! (j - Suc d))" by (rule set_takeWhileD [THEN conjunct2])
  moreover have "?t ! (j - Suc d) = ?xs ! (j - Suc d)" using i by (rule takeWhile_nth)
  moreover have "j - Suc d < length ?xs"
    using i length_takeWhile_le [of recursion ?xs] by (rule less_le_trans)
  then have "?xs ! (j - Suc d) = ss ! j" using assms by simp
  ultimately show ?thesis by simp
qed

lemma deepest_last:
  "\<not> (deepest ss d < length ss - 1 \<and> recursion (ss ! (deepest ss d + 1)))"
proof
  let ?xs = "drop (Suc d) ss"
  let ?t = "takeWhile recursion ?xs"
  assume a: "deepest ss d < length ss - 1 \<and> recursion (ss ! (deepest ss d + 1))"
  then have "length ?t < length ?xs" by (simp add: deepest_def) arith
  then have "\<not> recursion (?xs ! length ?t)" by (rule nth_length_takeWhile)
  moreover have "Suc d \<le> length ss" using a by (simp add: deepest_def) arith
  then have "?xs ! length ?t = ss ! (Suc d + length ?t)" by (rule nth_drop)
  then have "?xs ! length ?t = ss ! (deepest ss d + 1)" by (simp add: deepest_def)
  ultimately show False using a by simp
qed

lemma complex_add_0 [simp]: "complex_add pf p 0 = p"
  by (cases p) simp_all

lemma recursion_loop_run:
  fixes pl :: "('v, 'z) dft_plan_scheme"
  assumes d: "d < length (stages pl)"
    and idx: "\<forall>k < length (stages pl). recursion (stages pl ! k) \<longrightarrow> k < 32"
    and rec: "recursion (stages pl ! d)"
    and rep: "\<forall>k < length (stages pl). recursion (stages pl ! k) \<longrightarrow> repeats (stages pl ! k) \<noteq> 0"
    and stk: "length stk = 32" "\<forall>j. d \<le> j \<and> j < 32 \<longrightarrow> stk ! j = 0"
  shows "recursion_loop pf pl iv out inp temp scratch insc d
           \<lparr>stack = stk, offset = 0, rdepth = d, maxdepth = d, st = s\<rparr> =
         Some (Inr
           \<lparr>stack = stk[d := 1],
            offset = snd (descend (stages pl) (stage_event pf pl iv out inp temp scratch insc)
                       [Suc d..<Suc (deepest (stages pl) d)] (0 + out_offset (stages pl ! d))),
            rdepth = d, maxdepth = deepest (stages pl) d,
            st = run_events pl
                   (outermost_once_run (stages pl) (stage_event pf pl iv out inp temp scratch insc)
                      d (deepest (stages pl) d)) s\<rparr>)"
proof -
  let ?ss = "stages pl"
  let ?e = "deepest ?ss d"
  let ?ev = "stage_event pf pl iv out inp temp scratch insc"
  let ?stk1 = "stk[d := 1]"
  let ?off1 = "0 + out_offset (?ss ! d)"
  let ?s1 = "run_event pl (?ev d 0) s"
  have d32: "d < 32" using idx rec d by simp
  have recs: "\<forall>j. d < j \<and> j \<le> ?e \<longrightarrow> recursion (?ss ! j)"
    using deepest_recursion by blast
  have inside: "?e < length ?ss" "d \<le> ?e"
    using d deepest_less [of d ?ss] deepest_ge [of d ?ss] by auto
  have "recursion (?ss ! ?e)"
    using recs rec inside(2) by (cases "d = ?e") auto
  then have "?e < 32" using idx inside(1) by simp
  with inside have e: "?e < length ?ss" "?e < 32" "d \<le> ?e"
    by simp_all
  have last: "\<not> (?e < length ?ss - 1 \<and> recursion (?ss ! (?e + 1)))"
    by (rule deepest_last)
  have reps: "\<forall>j. d < j \<and> j \<le> ?e \<longrightarrow> repeats (?ss ! j) \<noteq> 0"
    using recs rep e by auto
  have ne: "stk ! d \<noteq> repeats (?ss ! d)" using stk rep rec d d32 by auto
  have inc: "stk[d := stk ! d + 1] = ?stk1" using stk d32 by simp
  show ?thesis
  proof (cases "d = ?e")
    case True
    have stay: "\<not> (d < length ?ss - 1 \<and> recursion (?ss ! (d + 1)))"
      using last True by simp
    have nil: "[Suc d..<Suc ?e] = []" using True by simp
    show ?thesis
      unfolding outermost_once_run_def nil
      using True
      by (simp add: recursion_loop_unfold step_stay [OF d32 d ne stay] continue_loop_def inc)
  next
    case False
    then have lt: "d < ?e" using e by simp
    have next_rec: "Suc d < length ?ss" "recursion (?ss ! Suc d)"
      using lt e recs by auto
    let ?n1 = "unat (repeats (?ss ! Suc d))"
    let ?body = "level_body ?ss ?ev (Suc d) [Suc (Suc d)..<Suc ?e]"
    have n1: "?n1 \<noteq> 0" using reps lt by (simp add: unat_eq_0)
    have upt: "[Suc d..<Suc ?e] = Suc d # [Suc (Suc d)..<Suc ?e]"
      using lt by (simp add: upt_conv_Cons)
    have sub_eq: "descend ?ss ?ev [Suc d..<Suc ?e] ?off1 = iterate_level ?n1 ?body ?off1"
      by (subst upt) (rule descend_Cons)
    have len1: "length ?stk1 = 32" using stk by simp
    have "Suc d < 32" using idx [rule_format, of "Suc d"] next_rec by simp
    then have next0: "?stk1 ! Suc d = 0" using stk by simp
    have same: "?stk1[Suc d := 0] = ?stk1"
      by (subst next0 [symmetric]) (rule list_update_id)
    have "recursion_loop pf pl iv out inp temp scratch insc d
            \<lparr>stack = stk, offset = 0, rdepth = d, maxdepth = d, st = s\<rparr> =
          recursion_loop pf pl iv out inp temp scratch insc d
            \<lparr>stack = ?stk1, offset = ?off1, rdepth = Suc d, maxdepth = d, st = ?s1\<rparr>"
      by (simp add: recursion_loop_unfold step_descend [OF d32 d ne next_rec]
          continue_loop_def inc)
    also have "\<dots> = continue_loop pf pl iv out inp temp scratch insc d
        \<lparr>stack = ?stk1[Suc d := 0], offset = snd (iterate_level ?n1 ?body ?off1),
         rdepth = Suc d - 1, maxdepth = (if ?n1 = 0 then d else ?e),
         st = run_events pl (fst (iterate_level ?n1 ?body ?off1)) ?s1\<rparr>"
    proof (rule recursion_loop_level [OF e(1,2) last recs reps, of "Suc d" "?e - Suc d"])
      show "?e - Suc d = ?e - Suc d" by simp
      show "d < Suc d" by simp
      show "Suc d \<le> ?e" using lt by simp
      show "length ?stk1 = 32" by (rule len1)
      show "\<forall>j. Suc d < j \<and> j \<le> ?e \<longrightarrow> ?stk1 ! j = 0" using stk e by simp
      show "unat (?stk1 ! Suc d) \<le> ?n1" using next0 by simp
      show "?n1 - unat (?stk1 ! Suc d) = ?n1" using next0 by simp
    qed
    finally show ?thesis
      unfolding outermost_once_run_def sub_eq same using n1
      by (simp add: continue_loop_def del: upt_Suc)
  qed
qed

lemma stage_loop_pipeline:
  fixes pl :: "('v, 'z) dft_plan_scheme"
  assumes idx: "\<forall>k < length (stages pl). recursion (stages pl ! k) \<longrightarrow> k < 32"
    and rep: "\<forall>k < length (stages pl). recursion (stages pl ! k) \<longrightarrow> repeats (stages pl ! k) \<noteq> 0"
  shows "\<lbrakk>length stk = 32; \<forall>j. depth \<le> j \<and> j < 32 \<longrightarrow> stk ! j = 0\<rbrakk> \<Longrightarrow>
     stage_loop pf pl iv out inp temp scratch insc depth stk s =
     Some (Inr (run_events pl
       (pipeline (stages pl)
          (outermost_once_run (stages pl) (stage_event pf pl iv out inp temp scratch insc))
          (\<lambda>k. stage_event pf pl iv out inp temp scratch insc k 0) depth) s))"
proof (induction "length (stages pl) - depth" arbitrary: depth stk s rule: less_induct)
  case less
  let ?ss = "stages pl"
  let ?ev = "stage_event pf pl iv out inp temp scratch insc"
  let ?pipe = "pipeline ?ss (outermost_once_run ?ss ?ev) (\<lambda>k. ?ev k 0)"
  show ?case
  proof (cases "depth < length ?ss")
    case False
    then show ?thesis
      by (subst stage_loop.simps, subst pipeline.simps) simp
  next
    case inside: True
    show ?thesis
    proof (cases "recursion (?ss ! depth)")
      case False
      let ?s1 = "run_event pl (?ev depth 0) s"
      have "stage_loop pf pl iv out inp temp scratch insc depth stk s =
            stage_loop pf pl iv out inp temp scratch insc (depth + 1) stk ?s1"
        using inside False
        by (subst stage_loop.simps) (simp add: stage_event_def)
      also have "\<dots> = Some (Inr (run_events pl (?pipe (depth + 1)) ?s1))"
        using inside less.prems by (intro less.hyps) auto
      also have "run_events pl (?pipe (depth + 1)) ?s1 = run_events pl (?pipe depth) s"
        using inside False by (subst (2) pipeline.simps) simp
      finally show ?thesis .
    next
      case True
      let ?e = "deepest ?ss depth"
      let ?run = "outermost_once_run ?ss ?ev depth ?e"
      let ?s1 = "run_events pl ?run s"
      let ?stk1 = "stk[depth := 1]"
      have e: "depth \<le> ?e" "?e < length ?ss"
        using deepest_ge [of depth ?ss] deepest_less [OF inside] by auto
      have "stage_loop pf pl iv out inp temp scratch insc depth stk s =
            stage_loop pf pl iv out inp temp scratch insc (?e + 1) ?stk1 ?s1"
        using inside True
        by (subst stage_loop.simps)
          (simp add: recursion_loop_run [OF inside idx True rep less.prems])
      also have "\<dots> = Some (Inr (run_events pl (?pipe (?e + 1)) ?s1))"
        using inside less.prems e by (intro less.hyps) auto
      also have "run_events pl (?pipe (?e + 1)) ?s1 = run_events pl (?pipe depth) s"
        using inside True by (subst (2) pipeline.simps) simp
      finally show ?thesis .
    qed
  qed
qed

section \<open>The calls of one \<^verbatim>\<open>execute_dft\<close>\<close>

lemma trace_run_event: "trace (run_event pl e s) = trace s @ [e]"
  by (cases e) (simp_all add: call_stage_def do_memcpy_def)

lemma trace_run_events: "trace (run_events pl es s) = trace s @ es"
  by (induction es arbitrary: s) (simp_all add: trace_run_event)

lemma execute_dft_events:
  fixes pl :: "('v, 'z) dft_plan_scheme"
  assumes ne: "stages pl \<noteq> []"
    and idx: "\<forall>k < length (stages pl). recursion (stages pl ! k) \<longrightarrow> k < 32"
    and rep: "\<forall>k < length (stages pl). recursion (stages pl ! k) \<longrightarrow> repeats (stages pl ! k) \<noteq> 0"
  shows "execute_dft pf pl iv out inp temp s =
     Some (Inr (run_events pl (plan_events outermost_once_run pf pl iv out inp temp) s))"
proof (cases "fast_path pl out inp")
  case True
  then show ?thesis
    by (simp add: execute_dft_def plan_events_def fast_path_def)
next
  case False
  let ?scratch = "scratch_buffer pf pl temp"
  let ?insc = "input_in_scratch pl out inp"
  let ?s1 = "if ?insc then do_memcpy ?scratch inp (sizeof_complex pf * size_dft pl) s else s"
  have "execute_dft pf pl iv out inp temp s =
        stage_loop pf pl iv out inp temp ?scratch ?insc 0 (replicate 32 0) ?s1"
    using False ne
    by (auto simp: execute_dft_def fast_path_def scratch_buffer_def input_in_scratch_def Let_def)
  also have "\<dots> = Some (Inr (run_events pl
       (pipeline (stages pl)
          (outermost_once_run (stages pl) (stage_event pf pl iv out inp temp ?scratch ?insc))
          (\<lambda>k. stage_event pf pl iv out inp temp ?scratch ?insc k 0) 0) ?s1))"
    by (rule stage_loop_pipeline [OF idx rep]) simp_all
  finally show ?thesis
    using False by (simp add: plan_events_def Let_def)
qed

lemma plan_in_boundsD:
  assumes "plan_in_bounds pl"
  shows "stages pl \<noteq> []" "length (stages pl) \<le> 32"
    "\<forall>k < length (stages pl). recursion (stages pl ! k) \<longrightarrow> repeats (stages pl ! k) \<noteq> 0"
  using assms by (simp_all add: plan_in_bounds_def list_all_length)

lemma execute_dft_in_bounds:
  assumes "plan_in_bounds pl"
  shows "execute_dft pf pl iv out inp temp s =
     Some (Inr (run_events pl (plan_events outermost_once_run pf pl iv out inp temp) s))"
proof -
  note b = plan_in_boundsD [OF assms]
  have "\<forall>k < length (stages pl). recursion (stages pl ! k) \<longrightarrow> k < 32"
    using b(2) by simp
  with b(1) show ?thesis using b(3) by (rule execute_dft_events)
qed

lemma counters_in_rangeD:
  assumes "counters_in_range pl"
  shows "stages pl \<noteq> []"
    "\<forall>k < length (stages pl). recursion (stages pl ! k) \<longrightarrow> k < 32"
    "\<forall>k < length (stages pl). recursion (stages pl ! k) \<longrightarrow> repeats (stages pl ! k) \<noteq> 0"
  using assms by (simp_all add: counters_in_range_def list_all_iff)

lemma plan_in_bounds_range:
  assumes "plan_in_bounds pl"
  shows "counters_in_range pl"
  using plan_in_boundsD [OF assms] by (simp add: counters_in_range_def list_all_iff)

lemma execute_dft_in_range:
  assumes "counters_in_range pl"
  shows "execute_dft pf pl iv out inp temp s =
     Some (Inr (run_events pl (plan_events outermost_once_run pf pl iv out inp temp) s))"
  using counters_in_rangeD [OF assms] by (rule execute_dft_events)

lemma plan_events_general:
  assumes "\<not> fast_path pl out inp"
  shows "plan_events run pf pl iv out inp temp =
     (if input_in_scratch pl out inp
      then [Memcpy (scratch_buffer pf pl temp) inp (sizeof_complex pf * size_dft pl)] else []) @
     pipeline (stages pl)
       (run (stages pl)
          (stage_event pf pl iv out inp temp (scratch_buffer pf pl temp)
             (input_in_scratch pl out inp)))
       (\<lambda>k. stage_event pf pl iv out inp temp (scratch_buffer pf pl temp)
             (input_in_scratch pl out inp) k 0) 0"
  using assms by (simp add: plan_events_def Let_def)

lemma iterate_level_numeral:
  "iterate_level (numeral v) body off =
     (let (es, off1) = body off; (es', off2) = iterate_level (pred_numeral v) body off1
      in (es @ es', off2))"
  by (simp add: numeral_eq_Suc)

subsection \<open>The first call\<close>


lemma not_memcpy_stage_event:
  "\<not> is_memcpy (stage_event pf pl iv out inp temp scratch insc k off)"
  by (simp add: stage_event_def)


subsection \<open>Buffers\<close>

lemma buffer_complex_add [simp]: "buffer (complex_add pf p off) = buffer p"
  by (cases p) simp_all

lemma buffer_byte_add [simp]: "buffer (byte_add p n) = buffer p"
  by (cases p) simp_all

lemma buffer_byte_sub [simp]: "buffer (byte_sub p n) = buffer p"
  by (cases p) simp_all

lemma buffer_scratch_buffer [simp]: "buffer (scratch_buffer pf pl temp) = buffer temp"
  by (simp add: scratch_buffer_def)

lemma routed_call_stage_event:
  "stage_event pf pl iv out inp temp (scratch_buffer pf pl temp) (input_in_scratch pl out inp) k off =
   routed_call pf pl iv out inp temp k off"
  by (simp add: stage_event_def routed_call_def select_in_def select_out_def input_in_scratch_def)

lemma builtin_memcpy_copies:
  assumes "0 \<le> j" and "j < int (unat n)"
  shows "builtin_memcpy (Ptr bd ad) (Ptr bs as) n m bd (ad + j) = m bs (as + j)"
  using assms by simp


lemma builtin_memcpy_peek:
  assumes "dst \<noteq> nullptr" "src \<noteq> nullptr" "0 \<le> j" "j < int (unat n)"
  shows "peek (builtin_memcpy dst src n m) dst j = peek m src j"
proof -
  from assms(1,2) obtain bd ad bs as where p: "dst = Ptr bd ad" "src = Ptr bs as"
    by (cases dst; cases src) auto
  show ?thesis
    unfolding p using builtin_memcpy_copies [OF assms(3,4), of bd ad bs as m] by simp
qed

lemma builtin_memcpy_outside:
  assumes "\<not> within dst n b a"
  shows "builtin_memcpy dst src n m b a = m b a"
  using assms by (cases dst; cases src) auto

lemma scratch_buffer_nullptr:
  "temp \<noteq> nullptr \<Longrightarrow> scratch_buffer pf pl temp \<noteq> nullptr"
  by (cases temp) (simp_all add: scratch_buffer_def)





subsection \<open>The last call\<close>






subsection \<open>Every stage is called\<close>

lemma iterate_level_first:
  assumes "n \<noteq> 0"
  shows "set (fst (body off)) \<subseteq> set (fst (iterate_level n body off))"
proof (cases n)
  case 0
  with assms show ?thesis by simp
next
  case (Suc m)
  then show ?thesis
    by (simp add: iterate_level_Suc_fst del: iterate_level.simps)
qed

lemma descend_covers:
  assumes "\<forall>j \<in> set ks. repeats (ss ! j) \<noteq> 0" and "k \<in> set ks"
  shows "\<exists>off'. ev k off' \<in> set (fst (descend ss ev ks off))"
  using assms
proof (induction ks arbitrary: off)
  case Nil
  then show ?case by simp
next
  case (Cons j ks)
  have n: "unat (repeats (ss ! j)) \<noteq> 0"
    using Cons.prems(1) by (simp add: unat_eq_0)
  have sub: "set (fst (level_body ss ev j ks off)) \<subseteq> set (fst (descend ss ev (j # ks) off))"
    unfolding descend_Cons using n by (rule iterate_level_first)
  show ?case
  proof (cases "k = j")
    case True
    have "ev j off \<in> set (fst (level_body ss ev j ks off))"
      by (simp add: level_body_fst)
    with sub True show ?thesis by blast
  next
    case False
    then have "k \<in> set ks" using Cons.prems(2) by simp
    moreover have "\<forall>j \<in> set ks. repeats (ss ! j) \<noteq> 0" using Cons.prems(1) by simp
    ultimately obtain off' where
      "ev k off' \<in> set (fst (descend ss ev ks (off + out_offset (ss ! j))))"
      using Cons.IH by blast
    then have "ev k off' \<in> set (fst (level_body ss ev j ks off))"
      by (simp add: level_body_fst)
    with sub show ?thesis by blast
  qed
qed

lemma outermost_once_run_covers:
  assumes "d \<le> k" "k \<le> e" and "\<forall>j. d < j \<and> j \<le> e \<longrightarrow> repeats (ss ! j) \<noteq> 0"
  shows "\<exists>off. ev k off \<in> set (outermost_once_run ss ev d e)"
proof (cases "k = d")
  case True
  then show ?thesis by (auto simp: outermost_once_run_def)
next
  case False
  then have k: "k \<in> set [Suc d..<Suc e]" using assms(1,2) by auto
  have "\<forall>j \<in> set [Suc d..<Suc e]. repeats (ss ! j) \<noteq> 0" using assms(3) by auto
  from descend_covers [OF this k, of ev "0 + out_offset (ss ! d)"] obtain off where
    "ev k off \<in> set (fst (descend ss ev [Suc d..<Suc e] (0 + out_offset (ss ! d))))"
    by blast
  then show ?thesis
    unfolding outermost_once_run_def by (intro exI [of _ off]) (simp del: upt_Suc)
qed

lemma pipeline_covers:
  assumes rep: "\<forall>k < length ss. recursion (ss ! k) \<longrightarrow> repeats (ss ! k) \<noteq> 0"
  shows "depth \<le> k \<Longrightarrow> k < length ss \<Longrightarrow>
     \<exists>off. ev k off \<in> set (pipeline ss (outermost_once_run ss ev) (\<lambda>k. ev k 0) depth)"
proof (induction "length ss - depth" arbitrary: depth rule: less_induct)
  case less
  let ?pipe = "pipeline ss (outermost_once_run ss ev) (\<lambda>k. ev k 0)"
  have inside: "depth < length ss" using less.prems by simp
  show ?case
  proof (cases "recursion (ss ! depth)")
    case False
    have unfold: "?pipe depth = ev depth 0 # ?pipe (Suc depth)"
      using inside False by (subst pipeline.simps) simp
    show ?thesis
    proof (cases "k = depth")
      case True
      then show ?thesis unfolding unfold by auto
    next
      case False
      then have "\<exists>off. ev k off \<in> set (?pipe (Suc depth))"
        using less.prems inside by (intro less.hyps) simp_all
      then show ?thesis unfolding unfold by auto
    qed
  next
    case True
    let ?e = "deepest ss depth"
    have e: "depth \<le> ?e" "?e < length ss"
      using deepest_ge [of depth ss] deepest_less [OF inside] by auto
    have unfold: "?pipe depth = outermost_once_run ss ev depth ?e @ ?pipe (Suc ?e)"
      using inside True by (subst pipeline.simps) simp
    show ?thesis
    proof (cases "k \<le> ?e")
      case True
      have reps: "\<forall>j. depth < j \<and> j \<le> ?e \<longrightarrow> repeats (ss ! j) \<noteq> 0"
      proof (intro allI impI)
        fix j
        assume j: "depth < j \<and> j \<le> ?e"
        then have "recursion (ss ! j)" using deepest_recursion [of depth j ss] by simp
        moreover have "j < length ss" using j e by simp
        ultimately show "repeats (ss ! j) \<noteq> 0" using rep by simp
      qed
      from outermost_once_run_covers [OF less.prems(1) True reps, of ev]
      show ?thesis unfolding unfold by auto
    next
      case False
      then have "\<exists>off. ev k off \<in> set (?pipe (Suc ?e))"
        using less.prems e by (intro less.hyps) simp_all
      then show ?thesis unfolding unfold by auto
    qed
  qed
qed

subsection \<open>Every call that returns\<close>

text \<open>
  Whatever the plan, a call of \<^verbatim>\<open>execute_dft\<close> that returns a state has reached it by
  calls of the stages only, after the copy of the input if there is one; the first of
  them is the call of stage 0 at offset 0.
\<close>

lemma only_stage_calls_refl: "only_stage_calls pf pl iv out inp temp scratch insc s s"
  unfolding only_stage_calls_def by (intro exI [of _ "[]"]) simp

lemma only_stage_calls_call:
  assumes "k < length (stages pl)"
    and "only_stage_calls pf pl iv out inp temp scratch insc
           (run_event pl (stage_event pf pl iv out inp temp scratch insc k off) s) s'"
  shows "only_stage_calls pf pl iv out inp temp scratch insc s s'"
proof -
  from assms(2) obtain es where
    "s' = run_events pl es (run_event pl (stage_event pf pl iv out inp temp scratch insc k off) s)"
    "\<forall>e \<in> set es. \<exists>k off. k < length (stages pl) \<and>
       e = stage_event pf pl iv out inp temp scratch insc k off"
    unfolding only_stage_calls_def by blast
  then show ?thesis
    unfolding only_stage_calls_def using assms(1)
    by (intro exI [of _ "stage_event pf pl iv out inp temp scratch insc k off # es"]) auto
qed

lemma only_stage_calls_trans:
  assumes "only_stage_calls pf pl iv out inp temp scratch insc s s1"
    and "only_stage_calls pf pl iv out inp temp scratch insc s1 s2"
  shows "only_stage_calls pf pl iv out inp temp scratch insc s s2"
proof -
  from assms obtain es1 es2 where
    "s1 = run_events pl es1 s" "s2 = run_events pl es2 s1"
    "\<forall>e \<in> set es1. \<exists>k off. k < length (stages pl) \<and>
       e = stage_event pf pl iv out inp temp scratch insc k off"
    "\<forall>e \<in> set es2. \<exists>k off. k < length (stages pl) \<and>
       e = stage_event pf pl iv out inp temp scratch insc k off"
    unfolding only_stage_calls_def by blast
  then show ?thesis
    unfolding only_stage_calls_def by (intro exI [of _ "es1 @ es2"]) auto
qed

lemma recursion_step_calls:
  assumes "recursion_step pf pl iv out inp temp scratch insc ls = Inr ls1"
  shows "only_stage_calls pf pl iv out inp temp scratch insc (st ls) (st ls1)"
proof (cases "stack ls ! rdepth ls = repeats (stages pl ! rdepth ls)")
  case True
  then have "st ls1 = st ls"
    using assms by (auto simp: recursion_step_def Let_def split: if_splits)
  then show ?thesis by (simp add: only_stage_calls_refl)
next
  case False
  let ?e = "stage_event pf pl iv out inp temp scratch insc (rdepth ls) (offset ls)"
  have k: "rdepth ls < length (stages pl)"
    using assms by (auto simp: recursion_step_def Let_def split: if_splits)
  have eq: "st ls1 = run_event pl ?e (st ls)"
    using assms False
    by (auto simp: recursion_step_def Let_def stage_event_def split: if_splits)
  have "only_stage_calls pf pl iv out inp temp scratch insc (run_event pl ?e (st ls)) (st ls1)"
    unfolding eq by (rule only_stage_calls_refl)
  with k show ?thesis by (rule only_stage_calls_call)
qed

lemma recursion_loop_calls:
  assumes "recursion_loop pf pl iv out inp temp scratch insc depth ls = Some r"
  shows "case r of Inl e \<Rightarrow> True
         | Inr ls' \<Rightarrow> only_stage_calls pf pl iv out inp temp scratch insc (st ls) (st ls')"
proof (rule recursion_loop.raw_induct
    [where P = "\<lambda>pf pl iv out inp temp scratch insc depth ls r.
       case r of Inl e \<Rightarrow> True
       | Inr ls' \<Rightarrow> only_stage_calls pf pl iv out inp temp scratch insc (st ls) (st ls')"])
  show "recursion_loop pf pl iv out inp temp scratch insc depth ls = Some r"
    by (rule assms)
next
  fix loop pf and pl :: "('v, 'z) dft_plan_scheme"
    and iv out inp temp scratch insc depth and ls :: "'v loop_state" and r
  assume IH: "\<And>a (b :: ('v, 'z) dft_plan_scheme) c d e f g h i (j :: 'v loop_state) y.
      loop a b c d e f g h i j = Some y \<Longrightarrow>
      (case y of Inl e \<Rightarrow> True
       | Inr ls' \<Rightarrow> only_stage_calls a b c d e f g h (st j) (st ls'))"
    and body: "(case recursion_step pf pl iv out inp temp scratch insc ls of
        Inl e \<Rightarrow> Some (Inl e)
      | Inr ls' \<Rightarrow>
          if rdepth ls' \<noteq> depth
          then loop pf pl iv out inp temp scratch insc depth ls'
          else Some (Inr ls')) = Some r"
  show "case r of Inl e \<Rightarrow> True
    | Inr ls' \<Rightarrow> only_stage_calls pf pl iv out inp temp scratch insc (st ls) (st ls')"
  proof (cases r)
    case (Inl e)
    then show ?thesis by simp
  next
    case (Inr ls')
    from body Inr obtain ls1 where
      step: "recursion_step pf pl iv out inp temp scratch insc ls = Inr ls1"
      and rest: "(if rdepth ls1 \<noteq> depth
                  then loop pf pl iv out inp temp scratch insc depth ls1
                  else Some (Inr ls1)) = Some (Inr ls')"
      by (auto split: sum.splits)
    have first: "only_stage_calls pf pl iv out inp temp scratch insc (st ls) (st ls1)"
      using step by (rule recursion_step_calls)
    have "only_stage_calls pf pl iv out inp temp scratch insc (st ls1) (st ls')"
    proof (cases "rdepth ls1 \<noteq> depth")
      case True
      then have "loop pf pl iv out inp temp scratch insc depth ls1 = Some (Inr ls')"
        using rest by simp
      from IH [OF this] show ?thesis by simp
    next
      case False
      then have "ls' = ls1" using rest by simp
      then show ?thesis by (simp add: only_stage_calls_refl)
    qed
    with first show ?thesis
      unfolding Inr by (simp add: only_stage_calls_trans)
  qed
qed

lemma stage_loop_calls:
  assumes "stage_loop pf pl iv out inp temp scratch insc depth stk s = Some r"
  shows "case r of Inl e \<Rightarrow> True
         | Inr s' \<Rightarrow> only_stage_calls pf pl iv out inp temp scratch insc s s'"
proof (rule stage_loop.raw_induct
    [where P = "\<lambda>pf pl iv out inp temp scratch insc depth stk s r.
       case r of Inl e \<Rightarrow> True
       | Inr s' \<Rightarrow> only_stage_calls pf pl iv out inp temp scratch insc s s'"])
  show "stage_loop pf pl iv out inp temp scratch insc depth stk s = Some r"
    by (rule assms)
next
  fix loop pf and pl :: "('v, 'z) dft_plan_scheme"
    and iv out inp temp scratch insc depth stk and s :: "'v state" and r
  let ?ev = "stage_event pf pl iv out inp temp scratch insc"
  let ?ls0 = "\<lparr>stack = stk, offset = 0, rdepth = depth, maxdepth = depth, st = s\<rparr>"
  assume IH: "\<And>a (b :: ('v, 'z) dft_plan_scheme) c d e f g h i j (k :: 'v state) y.
      loop a b c d e f g h i j k = Some y \<Longrightarrow>
      (case y of Inl e \<Rightarrow> True | Inr s' \<Rightarrow> only_stage_calls a b c d e f g h k s')"
    and body: "(if depth < length (stages pl)
      then if recursion (stages pl ! depth)
           then Option.bind
                 (recursion_loop pf pl iv out inp temp scratch insc depth ?ls0)
                 (\<lambda>r. case r of Inl e \<Rightarrow> Some (Inl e)
                      | Inr ls \<Rightarrow>
                          loop pf pl iv out inp temp scratch insc (maxdepth ls + 1) (stack ls)
                            (st ls))
           else loop pf pl iv out inp temp scratch insc (depth + 1) stk
                 (call_stage pl depth iv (select_out pl depth out scratch)
                   (select_in pl depth out inp scratch insc) temp s)
      else Some (Inr s)) = Some r"
  show "case r of Inl e \<Rightarrow> True
    | Inr s' \<Rightarrow> only_stage_calls pf pl iv out inp temp scratch insc s s'"
  proof (cases r)
    case (Inl e)
    then show ?thesis by simp
  next
    case (Inr s')
    have "only_stage_calls pf pl iv out inp temp scratch insc s s'"
    proof (cases "depth < length (stages pl)")
      case False
      then have "s' = s" using body Inr by simp
      then show ?thesis by (simp add: only_stage_calls_refl)
    next
      case inside: True
      show ?thesis
      proof (cases "recursion (stages pl ! depth)")
        case False
        let ?s1 = "run_event pl (?ev depth 0) s"
        have "loop pf pl iv out inp temp scratch insc (depth + 1) stk ?s1 = Some (Inr s')"
          using body Inr inside False by (simp add: stage_event_def)
        from IH [OF this] have "only_stage_calls pf pl iv out inp temp scratch insc ?s1 s'"
          by simp
        with inside show ?thesis by (rule only_stage_calls_call)
      next
        case True
        from body Inr inside True obtain r1 where
          r1: "recursion_loop pf pl iv out inp temp scratch insc depth ?ls0 = Some r1"
          and k: "(case r1 of Inl e \<Rightarrow> Some (Inl e)
                   | Inr ls \<Rightarrow> loop pf pl iv out inp temp scratch insc (Suc (maxdepth ls))
                       (stack ls) (st ls)) = Some (Inr s')"
          by (auto simp: bind_eq_Some_conv)
        from k obtain ls1 where ls1: "r1 = Inr ls1"
          by (cases r1) auto
        have inner: "recursion_loop pf pl iv out inp temp scratch insc depth ?ls0 = Some (Inr ls1)"
          using r1 ls1 by simp
        have outer: "loop pf pl iv out inp temp scratch insc (maxdepth ls1 + 1) (stack ls1)
                        (st ls1) = Some (Inr s')"
          using k ls1 by simp
        from recursion_loop_calls [OF inner]
        have "only_stage_calls pf pl iv out inp temp scratch insc s (st ls1)" by simp
        moreover from IH [OF outer]
        have "only_stage_calls pf pl iv out inp temp scratch insc (st ls1) s'" by simp
        ultimately show ?thesis by (rule only_stage_calls_trans)
      qed
    qed
    then show ?thesis unfolding Inr by simp
  qed
qed

lemma execute_dft_general:
  assumes "\<not> fast_path pl out inp"
    and "execute_dft pf pl iv out inp temp s = Some (Inr s')"
  shows "stages pl \<noteq> []"
    and "stage_loop pf pl iv out inp temp (scratch_buffer pf pl temp)
           (input_in_scratch pl out inp) 0 (replicate 32 0)
           (if input_in_scratch pl out inp
            then do_memcpy (scratch_buffer pf pl temp) inp (sizeof_complex pf * size_dft pl) s
            else s) = Some (Inr s')"
proof -
  have nf: "\<not> (length (stages pl) = 1 \<and> (can_inplace (stages pl ! 0) \<or> inp \<noteq> out))"
    using assms(1) by (simp add: fast_path_def)
  show ne: "stages pl \<noteq> []"
  proof
    assume "stages pl = []"
    then have "execute_dft pf pl iv out inp temp s = Some (Inl stage_index_out_of_range)"
      by (simp add: execute_dft_def)
    then show False using assms(2) by simp
  qed
  have "execute_dft pf pl iv out inp temp s =
      stage_loop pf pl iv out inp temp (scratch_buffer pf pl temp)
        (input_in_scratch pl out inp) 0 (replicate 32 0)
        (if input_in_scratch pl out inp
         then do_memcpy (scratch_buffer pf pl temp) inp (sizeof_complex pf * size_dft pl) s
         else s)"
    unfolding execute_dft_def scratch_buffer_def input_in_scratch_def Let_def
    using nf ne by (simp only: if_False)
  then show "stage_loop pf pl iv out inp temp (scratch_buffer pf pl temp)
           (input_in_scratch pl out inp) 0 (replicate 32 0)
           (if input_in_scratch pl out inp
            then do_memcpy (scratch_buffer pf pl temp) inp (sizeof_complex pf * size_dft pl) s
            else s) = Some (Inr s')"
    using assms(2) by simp
qed

lemma stage_loop_first:
  assumes loop: "stage_loop pf pl iv out inp temp scratch insc 0 (replicate 32 0) s = Some (Inr s')"
    and ne: "stages pl \<noteq> []"
  shows "only_stage_calls pf pl iv out inp temp scratch insc
     (run_event pl (stage_event pf pl iv out inp temp scratch insc 0 0) s) s'"
proof (cases "recursion (stages pl ! 0)")
  case False
  have "stage_loop pf pl iv out inp temp scratch insc (0 + 1) (replicate 32 0)
      (run_event pl (stage_event pf pl iv out inp temp scratch insc 0 0) s) = Some (Inr s')"
    using loop ne False
    by (subst (asm) stage_loop.simps) (simp add: stage_event_def)
  from stage_loop_calls [OF this] show ?thesis by simp
next
  case True
  let ?ls0 = "\<lparr>stack = replicate 32 0, offset = 0, rdepth = 0, maxdepth = 0, st = s\<rparr>"
  let ?s1 = "run_event pl (stage_event pf pl iv out inp temp scratch insc 0 0) s"
  have "Option.bind (recursion_loop pf pl iv out inp temp scratch insc 0 ?ls0)
      (\<lambda>r. case r of Inl e \<Rightarrow> Some (Inl e)
         | Inr ls \<Rightarrow> stage_loop pf pl iv out inp temp scratch insc (Suc (maxdepth ls)) (stack ls)
             (st ls)) = Some (Inr s')"
    using loop ne True by (subst (asm) stage_loop.simps) simp
  then obtain r1 where
    r1: "recursion_loop pf pl iv out inp temp scratch insc 0 ?ls0 = Some r1"
    and k: "(case r1 of Inl e \<Rightarrow> Some (Inl e)
             | Inr ls \<Rightarrow> stage_loop pf pl iv out inp temp scratch insc (Suc (maxdepth ls))
                 (stack ls) (st ls)) = Some (Inr s')"
    by (auto simp: bind_eq_Some_conv)
  from k obtain ls1 where ls1: "r1 = Inr ls1"
    by (cases r1) auto
  have outer: "stage_loop pf pl iv out inp temp scratch insc (maxdepth ls1 + 1) (stack ls1)
      (st ls1) = Some (Inr s')"
    using k ls1 by simp
  have inner: "recursion_loop pf pl iv out inp temp scratch insc 0 ?ls0 = Some (Inr ls1)"
    using r1 ls1 by simp
  have rep: "repeats (stages pl ! 0) \<noteq> 0"
  proof
    assume zero: "repeats (stages pl ! 0) = 0"
    let ?lsw = "\<lparr>stack = (replicate 32 0)[0 := 0], offset = 0, rdepth = 2 ^ 64 - 1,
      maxdepth = 0, st = s\<rparr>"
    have "recursion_step pf pl iv out inp temp scratch insc ?ls0 = Inr ?lsw"
      using ne zero by (simp add: recursion_step_def)
    then have "recursion_loop pf pl iv out inp temp scratch insc 0 ?ls0 =
        recursion_loop pf pl iv out inp temp scratch insc 0 ?lsw"
      by (subst recursion_loop.simps) simp
    also have "\<dots> = Some (Inl stack_index_out_of_range)"
      by (subst recursion_loop.simps) (simp add: recursion_step_def)
    finally show False using inner by simp
  qed
  let ?lsA = "\<lparr>stack = (replicate 32 0)[0 := replicate 32 0 ! 0 + 1],
      offset = 0 + out_offset (stages pl ! 0),
      rdepth = (if 0 < length (stages pl) - 1 \<and> recursion (stages pl ! (0 + 1)) then 0 + 1 else 0),
      maxdepth = 0, st = ?s1\<rparr>"
  have step: "recursion_step pf pl iv out inp temp scratch insc ?ls0 = Inr ?lsA"
    using ne rep by (simp add: recursion_step_def stage_event_def Let_def)
  have "continue_loop pf pl iv out inp temp scratch insc 0 ?lsA = Some (Inr ls1)"
    using inner by (simp add: recursion_loop_unfold step)
  then have "only_stage_calls pf pl iv out inp temp scratch insc (st ?lsA) (st ls1)"
    using recursion_loop_calls [of pf pl iv out inp temp scratch insc 0 ?lsA "Inr ls1"]
    by (auto simp: continue_loop_def only_stage_calls_refl split: if_splits)
  then have "only_stage_calls pf pl iv out inp temp scratch insc ?s1 (st ls1)"
    by simp
  moreover from stage_loop_calls [OF outer]
  have "only_stage_calls pf pl iv out inp temp scratch insc (st ls1) s'" by simp
  ultimately show ?thesis by (rule only_stage_calls_trans)
qed

lemma execute_dft_calls:
  fixes pl :: "('v, 'z) dft_plan_scheme"
  assumes "\<not> fast_path pl out inp"
    and "execute_dft pf pl iv out inp temp s = Some (Inr s')"
  shows "\<exists>rest. s' = run_events pl
       ((if input_in_scratch pl out inp
         then [Memcpy (scratch_buffer pf pl temp) inp (sizeof_complex pf * size_dft pl)]
         else []) @
        stage_event pf pl iv out inp temp (scratch_buffer pf pl temp)
          (input_in_scratch pl out inp) 0 0 # rest) s \<and>
     (\<forall>e \<in> set rest. \<exists>k off. k < length (stages pl) \<and>
        e = stage_event pf pl iv out inp temp (scratch_buffer pf pl temp)
              (input_in_scratch pl out inp) k off)"
proof -
  let ?scratch = "scratch_buffer pf pl temp"
  let ?insc = "input_in_scratch pl out inp"
  let ?copy = "if ?insc then [Memcpy ?scratch inp (sizeof_complex pf * size_dft pl)] else []"
  let ?s1 = "if ?insc then do_memcpy ?scratch inp (sizeof_complex pf * size_dft pl) s else s"
  note g = execute_dft_general [OF assms]
  have s1: "?s1 = run_events pl ?copy s" by simp
  from stage_loop_first [OF g(2) g(1)] obtain rest where
    rest: "s' = run_events pl rest
        (run_event pl (stage_event pf pl iv out inp temp ?scratch ?insc 0 0) ?s1)"
      "\<forall>e \<in> set rest. \<exists>k off. k < length (stages pl) \<and>
         e = stage_event pf pl iv out inp temp ?scratch ?insc k off"
    unfolding only_stage_calls_def by blast
  have "s' = run_events pl
      (?copy @ stage_event pf pl iv out inp temp ?scratch ?insc 0 0 # rest) s"
    unfolding rest(1) s1 by simp
  with rest(2) show ?thesis by blast
qed


lemma execute_dft_returns:
  assumes "counters_in_range pl"
  shows "\<exists>s'. execute_dft pf pl iv out inp temp s = Some (Inr s')"
  by (simp add: execute_dft_in_range [OF assms])


subsection \<open>The counters are indexed by the stage\<close>

text \<open>
  \<^verbatim>\<open>stack[rdepth]\<close> uses the index of the stage, not the depth inside the run: a run of a
  single recursion stage that is the 33rd stage of its plan reads \<^verbatim>\<open>stack[32]\<close>.
\<close>

lemma stage_loop_plain:
  assumes "depth < length (stages pl)" "\<not> recursion (stages pl ! depth)"
  shows "stage_loop pf pl iv out inp temp scratch insc depth stk s =
     stage_loop pf pl iv out inp temp scratch insc (Suc depth) stk
       (call_stage pl depth iv (select_out pl depth out scratch)
          (select_in pl depth out inp scratch insc) temp s)"
  using assms by (subst stage_loop.simps) simp

lemma stage_loop_plain_prefix:
  assumes "n \<le> length (stages pl)" "\<forall>k < n. \<not> recursion (stages pl ! k)" "depth \<le> n"
  shows "\<exists>s'. stage_loop pf pl iv out inp temp scratch insc depth stk s =
     stage_loop pf pl iv out inp temp scratch insc n stk s'"
  using assms(3)
proof (induction "n - depth" arbitrary: depth s)
  case 0
  then show ?case by auto
next
  case (Suc m)
  then have d: "depth < n" by simp
  then have "depth < length (stages pl)" "\<not> recursion (stages pl ! depth)"
    using assms by auto
  note step = stage_loop_plain [OF this]
  have m: "m = n - Suc depth" using Suc(2) by simp
  have le: "Suc depth \<le> n" using d by simp
  from Suc(1) [OF m le] obtain s' where
    "stage_loop pf pl iv out inp temp scratch insc (Suc depth) stk
       (call_stage pl depth iv (select_out pl depth out scratch)
          (select_in pl depth out inp scratch insc) temp s) =
     stage_loop pf pl iv out inp temp scratch insc n stk s'"
    by blast
  then show ?case unfolding step by blast
qed

lemma stage_loop_level_32:
  assumes "32 < length (stages pl)" "recursion (stages pl ! 32)"
  shows "stage_loop pf pl iv out inp temp scratch insc 32 stk s =
     Some (Inl stack_index_out_of_range)"
  using assms
  by (subst stage_loop.simps, subst recursion_loop.simps) (simp add: recursion_step_def)

lemma long_plan_overflows:
  "execute_dft example_platform plan_long False (Ptr 1 0) (Ptr 2 0) (Ptr 3 0) example_state =
     Some (Inl stack_index_out_of_range)"
proof -
  have len: "length (stages plan_long) = 33"
    by (simp add: plan_long_def)
  have plain: "\<forall>k < 32. \<not> recursion (stages plan_long ! k)"
    by (simp add: plan_long_def nth_append example_stage_def dft_stage_init_def)
  have last: "recursion (stages plan_long ! 32)"
    by (simp add: plan_long_def nth_append)
  have nf: "\<not> fast_path plan_long (Ptr 1 0) (Ptr 2 0)"
    by (simp add: fast_path_def len)
  have ne: "stages plan_long \<noteq> []" using len by auto
  have "\<exists>s'. stage_loop example_platform plan_long False (Ptr 1 0) (Ptr 2 0) (Ptr 3 0)
       (scratch_buffer example_platform plan_long (Ptr 3 0))
       (input_in_scratch plan_long (Ptr 1 0) (Ptr 2 0)) 0 (replicate 32 0) example_state =
     stage_loop example_platform plan_long False (Ptr 1 0) (Ptr 2 0) (Ptr 3 0)
       (scratch_buffer example_platform plan_long (Ptr 3 0))
       (input_in_scratch plan_long (Ptr 1 0) (Ptr 2 0)) 32 (replicate 32 0) s'"
  proof (rule stage_loop_plain_prefix)
    show "32 \<le> length (stages plan_long)" using len by simp
    show "\<forall>k < 32. \<not> recursion (stages plan_long ! k)" by (rule plain)
    show "(0 :: nat) \<le> 32" by simp
  qed
  then obtain s' where run:
    "stage_loop example_platform plan_long False (Ptr 1 0) (Ptr 2 0) (Ptr 3 0)
       (scratch_buffer example_platform plan_long (Ptr 3 0))
       (input_in_scratch plan_long (Ptr 1 0) (Ptr 2 0)) 0 (replicate 32 0) example_state =
     stage_loop example_platform plan_long False (Ptr 1 0) (Ptr 2 0) (Ptr 3 0)
       (scratch_buffer example_platform plan_long (Ptr 3 0))
       (input_in_scratch plan_long (Ptr 1 0) (Ptr 2 0)) 32 (replicate 32 0) s'"
    by blast
  have "execute_dft example_platform plan_long False (Ptr 1 0) (Ptr 2 0) (Ptr 3 0) example_state =
     stage_loop example_platform plan_long False (Ptr 1 0) (Ptr 2 0) (Ptr 3 0)
       (scratch_buffer example_platform plan_long (Ptr 3 0))
       (input_in_scratch plan_long (Ptr 1 0) (Ptr 2 0)) 0 (replicate 32 0) example_state"
    using nf ne len
    by (simp add: execute_dft_def fast_path_def scratch_buffer_def input_in_scratch_def)
  also note run
  also have "stage_loop example_platform plan_long False (Ptr 1 0) (Ptr 2 0) (Ptr 3 0)
       (scratch_buffer example_platform plan_long (Ptr 3 0))
       (input_in_scratch plan_long (Ptr 1 0) (Ptr 2 0)) 32 (replicate 32 0) s' =
     Some (Inl stack_index_out_of_range)"
    using len last by (intro stage_loop_level_32) simp_all
  finally show ?thesis .
qed

lemma levels_from_plain:
  assumes "list_all (\<lambda>stg. \<not> recursion stg) ss"
  shows "levels_from (ss @ ss') 0 0 = levels_from ss' 0 0"
  using assms by (induction ss) simp_all

lemma plan_long_levels: "recursion_levels (stages plan_long) = 1"
proof -
  have "list_all (\<lambda>stg. \<not> recursion stg) (replicate 32 example_stage)"
    by (simp add: list_all_iff example_stage_def dft_stage_init_def)
  then show ?thesis
    by (simp add: recursion_levels_def plan_long_def levels_from_plain)
qed

subsection \<open>Elementwise products\<close>

lemma assign_expression_full: "length e = length dest \<Longrightarrow> assign_expression dest e = e"
  by (simp add: assign_expression_def)

lemma map2_by_index:
  assumes "length ys = length xs"
  shows "map2 f xs ys = map (\<lambda>i. f (xs ! i) (ys ! i)) [0..<length xs]"
  using assms by (intro nth_equalityI) simp_all

lemma bin0_update:
  assumes "0 < n"
  shows "(map g [0..<n])[0 := v] = map (\<lambda>i. if i = 0 then v else g i) [0..<n]"
  using assms by (intro nth_equalityI) (simp_all add: nth_list_update)

section \<open>The claims\<close>

text \<open>
  C1, as the specification states it: the iterative traversal makes the same calls, at
  the same offsets, as the recursive traversal in which every level of a run, the
  outermost included, runs its stage \<^verbatim>\<open>repeats\<close> times. This fails on \<open>plan_nested\<close>, a run of
  two recursion stages whose outermost stage has \<^verbatim>\<open>repeats = 2\<close>: \<^verbatim>\<open>execute_dft\<close> calls stage
  0 once and stage 1 once, the reference calls each of them twice. The
  \<^verbatim>\<open>do ... while (rdepth != depth)\<close> loop ends as soon as the traversal is back at the level
  it started from.
\<close>

theorem flattening_differs_from_reference:
  "map_option (map_sum id trace)
     (execute_dft example_platform plan_nested False (Ptr 1 0) (Ptr 2 0) (Ptr 3 0) example_state) =
   Some (Inr [Exec_stage 0 False (Ptr 1 0) (Ptr 2 0) (Ptr 3 0),
              Exec_stage 1 False (Ptr 3 160) (Ptr 1 32) (Ptr 3 0)]) \<and>
   plan_events reference_run example_platform plan_nested False (Ptr 1 0) (Ptr 2 0) (Ptr 3 0) =
     [Exec_stage 0 False (Ptr 1 0) (Ptr 2 0) (Ptr 3 0),
      Exec_stage 1 False (Ptr 3 160) (Ptr 1 32) (Ptr 3 0),
      Exec_stage 0 False (Ptr 1 32) (Ptr 2 32) (Ptr 3 0),
      Exec_stage 1 False (Ptr 3 192) (Ptr 1 64) (Ptr 3 0)] \<and>
   map_option (map_sum id trace)
     (execute_dft example_platform plan_nested False (Ptr 1 0) (Ptr 2 0) (Ptr 3 0) example_state) \<noteq>
   Some (Inr (trace example_state @
     plan_events reference_run example_platform plan_nested False (Ptr 1 0) (Ptr 2 0) (Ptr 3 0)))"
proof -
  have code: "map_option (map_sum id trace)
     (execute_dft example_platform plan_nested False (Ptr 1 0) (Ptr 2 0) (Ptr 3 0) example_state) =
   Some (Inr [Exec_stage 0 False (Ptr 1 0) (Ptr 2 0) (Ptr 3 0),
              Exec_stage 1 False (Ptr 3 160) (Ptr 1 32) (Ptr 3 0)])"
    by (simp add: execute_dft_def plan_nested_def example_stage_def dft_stage_init_def
        example_platform_def example_state_def stage_loop.simps recursion_loop.simps
        recursion_step_def call_stage_def select_in_def select_out_def Let_def)
  have reference:
    "plan_events reference_run example_platform plan_nested False (Ptr 1 0) (Ptr 2 0) (Ptr 3 0) =
     [Exec_stage 0 False (Ptr 1 0) (Ptr 2 0) (Ptr 3 0),
      Exec_stage 1 False (Ptr 3 160) (Ptr 1 32) (Ptr 3 0),
      Exec_stage 0 False (Ptr 1 32) (Ptr 2 32) (Ptr 3 0),
      Exec_stage 1 False (Ptr 3 192) (Ptr 1 64) (Ptr 3 0)]"
    by (simp add: plan_nested_def example_stage_def dft_stage_init_def example_platform_def
        select_in_def select_out_def plan_events_def fast_path_def scratch_buffer_def
        input_in_scratch_def pipeline.simps reference_run_def deepest_def stage_event_def
        Let_def iterate_level_numeral)
  show ?thesis
    unfolding code reference by (simp add: example_state_def)
qed

text \<open>
  C1, amended: for every plan within bounds (1 to 32 stages, \<^verbatim>\<open>repeats\<close> at least 1 on the
  recursion stages), the calls \<^verbatim>\<open>execute_dft\<close> makes, with their pointers and offsets, are
  those of the recursive depth-first traversal in which the outermost stage of each run
  of recursion stages is called once, at offset 0, and every level below it runs its
  stage \<^verbatim>\<open>repeats\<close> times, each repeat advancing the one running offset by \<^verbatim>\<open>out_offset\<close> and
  then descending into the next recursion stage.
\<close>

theorem flattening_is_outermost_once:
  assumes "plan_in_bounds pl"
  shows "map_option (map_sum id trace) (execute_dft pf pl is_inverse out inp temp s) =
     Some (Inr (trace s @ plan_events outermost_once_run pf pl is_inverse out inp temp))"
  by (simp add: execute_dft_in_bounds [OF assms] trace_run_events)

text \<open>
  The five stages of \<open>plan_mixed\<close>, called in place: the copy of the input, the first
  stage, the run of three recursion stages (stage 1 once, stage 2 twice, stage 3 twice
  under each call of stage 2) and the last stage.
\<close>

theorem flattening_is_outermost_once_witness:
  "map_option (map_sum id trace)
     (execute_dft example_platform plan_mixed False (Ptr 1 0) (Ptr 1 0) (Ptr 3 0) example_state) =
   Some (Inr
     [Memcpy (Ptr 3 128) (Ptr 1 0) 128,
      Exec_stage 0 False (Ptr 3 128) (Ptr 3 128) (Ptr 3 0),
      Exec_stage 1 False (Ptr 1 0) (Ptr 3 128) (Ptr 3 0),
      Exec_stage 2 False (Ptr 3 136) (Ptr 1 8) (Ptr 3 0),
      Exec_stage 3 False (Ptr 1 8) (Ptr 3 136) (Ptr 3 0),
      Exec_stage 3 False (Ptr 1 24) (Ptr 3 152) (Ptr 3 0),
      Exec_stage 2 False (Ptr 3 168) (Ptr 1 40) (Ptr 3 0),
      Exec_stage 3 False (Ptr 1 40) (Ptr 3 168) (Ptr 3 0),
      Exec_stage 3 False (Ptr 1 56) (Ptr 3 184) (Ptr 3 0),
      Exec_stage 4 False (Ptr 1 0) (Ptr 1 0) (Ptr 3 0)])"
proof -
  have bounds: "plan_in_bounds plan_mixed"
    by (simp add: plan_in_bounds_def plan_mixed_def example_stage_def dft_stage_init_def)
  have events:
    "plan_events outermost_once_run example_platform plan_mixed False (Ptr 1 0) (Ptr 1 0) (Ptr 3 0) =
     [Memcpy (Ptr 3 128) (Ptr 1 0) 128,
      Exec_stage 0 False (Ptr 3 128) (Ptr 3 128) (Ptr 3 0),
      Exec_stage 1 False (Ptr 1 0) (Ptr 3 128) (Ptr 3 0),
      Exec_stage 2 False (Ptr 3 136) (Ptr 1 8) (Ptr 3 0),
      Exec_stage 3 False (Ptr 1 8) (Ptr 3 136) (Ptr 3 0),
      Exec_stage 3 False (Ptr 1 24) (Ptr 3 152) (Ptr 3 0),
      Exec_stage 2 False (Ptr 3 168) (Ptr 1 40) (Ptr 3 0),
      Exec_stage 3 False (Ptr 1 40) (Ptr 3 168) (Ptr 3 0),
      Exec_stage 3 False (Ptr 1 56) (Ptr 3 184) (Ptr 3 0),
      Exec_stage 4 False (Ptr 1 0) (Ptr 1 0) (Ptr 3 0)]"
    by (simp add: plan_mixed_def example_stage_def dft_stage_init_def example_platform_def
        select_in_def select_out_def plan_events_def fast_path_def scratch_buffer_def
        input_in_scratch_def pipeline.simps outermost_once_run_def deepest_def stage_event_def
        Let_def iterate_level_numeral)
  have start: "trace example_state = []"
    by (simp add: example_state_def)
  show ?thesis
    using flattening_is_outermost_once [OF bounds, of example_platform False "Ptr 1 0" "Ptr 1 0"
        "Ptr 3 0" example_state]
    unfolding events start by simp
qed

text \<open>
  C2: on the general path of \<^verbatim>\<open>execute_dft\<close> (every call that does not take the fast
  path), whatever the plan, every call that returns has made, after the copy of the
  input if there is one, the call of stage 0 and then calls of stages of the plan only,
  and each call of a stage \<open>k\<close> passes exactly the pointers of \<open>routed_call\<close>: as output
  the scratch pointer if \<^verbatim>\<open>to_scratch\<close> of stage \<open>k\<close> is set and \<^verbatim>\<open>out\<close> otherwise, and for
  \<open>k > 0\<close> as input the buffer stage \<open>k - 1\<close> writes to, both advanced by the same offset.
  For a plan whose counters are in range the call does return, and every stage of the
  plan is called.
\<close>

theorem stage_calls_routed:
  assumes "\<not> fast_path pl out inp"
  shows "(counters_in_range pl \<longrightarrow>
       (\<exists>s' es. execute_dft pf pl is_inverse out inp temp s = Some (Inr s') \<and>
          trace s' = trace s @
            (if \<not> can_inplace (stages pl ! 0) \<and> inp = out
             then [Memcpy (scratch_buffer pf pl temp) inp (sizeof_complex pf * size_dft pl)]
             else []) @ es \<and>
          (\<forall>k < length (stages pl).
             \<exists>off. routed_call pf pl is_inverse out inp temp k off \<in> set es))) \<and>
     (\<forall>s'. execute_dft pf pl is_inverse out inp temp s = Some (Inr s') \<longrightarrow>
       (\<exists>es. s' = run_events pl
            ((if \<not> can_inplace (stages pl ! 0) \<and> inp = out
              then [Memcpy (scratch_buffer pf pl temp) inp (sizeof_complex pf * size_dft pl)]
              else []) @ routed_call pf pl is_inverse out inp temp 0 0 # es) s \<and>
          trace s' = trace s @
            (if \<not> can_inplace (stages pl ! 0) \<and> inp = out
             then [Memcpy (scratch_buffer pf pl temp) inp (sizeof_complex pf * size_dft pl)]
             else []) @ routed_call pf pl is_inverse out inp temp 0 0 # es \<and>
          (\<forall>e \<in> set es. \<exists>k off. k < length (stages pl) \<and>
             e = routed_call pf pl is_inverse out inp temp k off)))"
proof (intro conjI allI impI)
  let ?scratch = "scratch_buffer pf pl temp"
  let ?copy = "if \<not> can_inplace (stages pl ! 0) \<and> inp = out
      then [Memcpy ?scratch inp (sizeof_complex pf * size_dft pl)] else []"
  let ?ev = "routed_call pf pl is_inverse out inp temp"
  let ?pipe = "pipeline (stages pl) (outermost_once_run (stages pl) ?ev) (\<lambda>k. ?ev k 0) 0"
  assume bounds: "counters_in_range pl"
  note b = counters_in_rangeD [OF bounds]
  have events: "plan_events outermost_once_run pf pl is_inverse out inp temp = ?copy @ ?pipe"
    unfolding plan_events_general [OF assms] routed_call_stage_event [abs_def]
    by (simp add: input_in_scratch_def)
  have ret: "execute_dft pf pl is_inverse out inp temp s =
      Some (Inr (run_events pl (?copy @ ?pipe) s))"
    unfolding events [symmetric] by (rule execute_dft_in_range [OF bounds])
  have covers: "\<forall>k < length (stages pl). \<exists>off. ?ev k off \<in> set ?pipe"
    using pipeline_covers [OF b(3), of 0 _ ?ev] by simp
  have "trace (run_events pl (?copy @ ?pipe) s) = trace s @ ?copy @ ?pipe"
    by (rule trace_run_events)
  with ret covers
  show "\<exists>s' es. execute_dft pf pl is_inverse out inp temp s = Some (Inr s') \<and>
      trace s' = trace s @ ?copy @ es \<and>
      (\<forall>k < length (stages pl). \<exists>off. ?ev k off \<in> set es)"
    by blast
next
  fix s'
  let ?scratch = "scratch_buffer pf pl temp"
  let ?copy = "if \<not> can_inplace (stages pl ! 0) \<and> inp = out
      then [Memcpy ?scratch inp (sizeof_complex pf * size_dft pl)] else []"
  let ?ev = "routed_call pf pl is_inverse out inp temp"
  assume "execute_dft pf pl is_inverse out inp temp s = Some (Inr s')"
  note calls = execute_dft_calls [OF assms this, unfolded routed_call_stage_event]
  from calls obtain rest where
    s': "s' = run_events pl (?copy @ ?ev 0 0 # rest) s"
    and rest: "\<forall>e \<in> set rest. \<exists>k off. k < length (stages pl) \<and> e = ?ev k off"
    unfolding input_in_scratch_def by blast
  have "trace s' = trace s @ ?copy @ ?ev 0 0 # rest"
    unfolding s' by (rule trace_run_events)
  with s' rest
  show "\<exists>es. s' = run_events pl (?copy @ ?ev 0 0 # es) s \<and>
      trace s' = trace s @ ?copy @ ?ev 0 0 # es \<and>
      (\<forall>e \<in> set es. \<exists>k off. k < length (stages pl) \<and> e = ?ev k off)"
    by blast
qed

theorem stage_calls_routed_witness:
  "\<exists>s' es. execute_dft example_platform plan_mixed False (Ptr 1 0) (Ptr 2 0) (Ptr 3 0) example_state
       = Some (Inr s') \<and>
     trace s' = Exec_stage 0 False (Ptr 3 128) (Ptr 2 0) (Ptr 3 0) # es \<and>
     (\<forall>e \<in> set es. \<exists>k off. k < 5 \<and>
        e = routed_call example_platform plan_mixed False (Ptr 1 0) (Ptr 2 0) (Ptr 3 0) k off) \<and>
     (\<forall>k < 5. \<exists>off.
        routed_call example_platform plan_mixed False (Ptr 1 0) (Ptr 2 0) (Ptr 3 0) k off
          \<in> set (trace s'))"
proof -
  have bounds: "counters_in_range plan_mixed"
    by (rule plan_in_bounds_range)
      (simp add: plan_in_bounds_def plan_mixed_def example_stage_def dft_stage_init_def)
  have general: "\<not> fast_path plan_mixed (Ptr 1 0) (Ptr 2 0)"
    by (simp add: fast_path_def plan_mixed_def)
  have len: "length (stages plan_mixed) = 5"
    by (simp add: plan_mixed_def)
  have first: "routed_call example_platform plan_mixed False (Ptr 1 0) (Ptr 2 0) (Ptr 3 0) 0 0 =
      Exec_stage 0 False (Ptr 3 128) (Ptr 2 0) (Ptr 3 0)"
    by (simp add: routed_call_def scratch_buffer_def example_platform_def plan_mixed_def
        example_stage_def dft_stage_init_def)
  have start: "trace example_state = []"
    by (simp add: example_state_def)
  note inst = stage_calls_routed [OF general, of example_platform False "Ptr 3 0" example_state]
  from inst bounds obtain s' es where
    ret: "execute_dft example_platform plan_mixed False (Ptr 1 0) (Ptr 2 0) (Ptr 3 0) example_state
       = Some (Inr s')"
    and tr: "trace s' = es"
    and all: "\<forall>k < 5. \<exists>off.
        routed_call example_platform plan_mixed False (Ptr 1 0) (Ptr 2 0) (Ptr 3 0) k off \<in> set es"
    unfolding len start by auto
  from inst ret obtain rest where
    tr2: "trace s' = Exec_stage 0 False (Ptr 3 128) (Ptr 2 0) (Ptr 3 0) # rest"
    and routed: "\<forall>e \<in> set rest. \<exists>k off. k < 5 \<and>
        e = routed_call example_platform plan_mixed False (Ptr 1 0) (Ptr 2 0) (Ptr 3 0) k off"
    unfolding len start first by auto
  from ret tr2 routed all tr show ?thesis by blast
qed

text \<open>
  C3: on the general path, whatever the plan, in every call that returns: if the first
  stage cannot run in place and \<^verbatim>\<open>in == out\<close>, the call first copies
  \<^verbatim>\<open>sizeof(complex<T>) * size\<close> bytes from \<^verbatim>\<open>in\<close> to the scratch buffer and then calls the
  first stage with the scratch pointer as its input, on the memory the copy left: every
  one of those bytes of the scratch buffer holds the byte of \<^verbatim>\<open>in\<close> at the same position
  (for pointers that are not null), and every other cell is as before. Otherwise the
  first call is the first stage's, with \<^verbatim>\<open>in\<close> as its input, on the memory of the caller.
  In both cases nothing is copied afterwards. For a plan whose counters are in range the
  call does return.
\<close>

theorem first_stage_input:
  assumes "\<not> fast_path pl out inp"
  shows "(counters_in_range pl \<longrightarrow>
       (\<exists>s'. execute_dft pf pl is_inverse out inp temp s = Some (Inr s'))) \<and>
     (\<forall>s'. execute_dft pf pl is_inverse out inp temp s = Some (Inr s') \<longrightarrow>
       (\<exists>s1 rest.
          s' = run_events pl
            ((if \<not> can_inplace (stages pl ! 0) \<and> inp = out
              then [Memcpy (scratch_buffer pf pl temp) inp (sizeof_complex pf * size_dft pl),
                    Exec_stage 0 is_inverse (select_out pl 0 out (scratch_buffer pf pl temp))
                      (scratch_buffer pf pl temp) temp]
              else [Exec_stage 0 is_inverse (select_out pl 0 out (scratch_buffer pf pl temp))
                      inp temp]) @ rest) s \<and>
          list_all (\<lambda>e. \<not> is_memcpy e) rest \<and>
          s' = run_events pl rest
            (call_stage pl 0 is_inverse (select_out pl 0 out (scratch_buffer pf pl temp))
               (if \<not> can_inplace (stages pl ! 0) \<and> inp = out then scratch_buffer pf pl temp
                else inp) temp s1) \<and>
          (if \<not> can_inplace (stages pl ! 0) \<and> inp = out
           then trace s1 = trace s @
                  [Memcpy (scratch_buffer pf pl temp) inp (sizeof_complex pf * size_dft pl)] \<and>
                (inp \<noteq> nullptr \<and> temp \<noteq> nullptr \<longrightarrow>
                   (\<forall>j. 0 \<le> j \<and> j < int (unat (sizeof_complex pf * size_dft pl)) \<longrightarrow>
                      peek (mem s1) (scratch_buffer pf pl temp) j = peek (mem s) inp j)) \<and>
                (\<forall>b a. \<not> within (scratch_buffer pf pl temp) (sizeof_complex pf * size_dft pl) b a
                   \<longrightarrow> mem s1 b a = mem s b a)
           else s1 = s)))"
proof (intro conjI allI impI)
  assume "counters_in_range pl"
  then show "\<exists>s'. execute_dft pf pl is_inverse out inp temp s = Some (Inr s')"
    by (rule execute_dft_returns)
next
  fix s'
  let ?scratch = "scratch_buffer pf pl temp"
  let ?insc = "input_in_scratch pl out inp"
  let ?n = "sizeof_complex pf * size_dft pl"
  let ?ev = "stage_event pf pl is_inverse out inp temp ?scratch ?insc"
  let ?c = "\<not> can_inplace (stages pl ! 0) \<and> inp = out"
  let ?s1 = "if ?c then do_memcpy ?scratch inp ?n s else s"
  let ?first = "if ?c
      then [Memcpy ?scratch inp ?n,
            Exec_stage 0 is_inverse (select_out pl 0 out ?scratch) ?scratch temp]
      else [Exec_stage 0 is_inverse (select_out pl 0 out ?scratch) inp temp]"
  assume "execute_dft pf pl is_inverse out inp temp s = Some (Inr s')"
  from execute_dft_calls [OF assms this] obtain rest where
    s': "s' = run_events pl
       ((if ?insc then [Memcpy ?scratch inp ?n] else []) @ ?ev 0 0 # rest) s"
    and rest: "\<forall>e \<in> set rest. \<exists>k off. k < length (stages pl) \<and> e = ?ev k off"
    by blast
  have no_copy: "list_all (\<lambda>e. \<not> is_memcpy e) rest"
    unfolding list_all_iff using rest not_memcpy_stage_event by fastforce
  have ev0: "?ev 0 0 = Exec_stage 0 is_inverse (select_out pl 0 out ?scratch)
      (if ?insc then ?scratch else inp) temp"
    by (simp add: stage_event_def select_in_def)
  have "(if ?insc then [Memcpy ?scratch inp ?n] else []) @ ?ev 0 0 # rest = ?first @ rest"
    unfolding ev0 by (simp add: input_in_scratch_def)
  with s' have replay: "s' = run_events pl (?first @ rest) s"
    by (simp only:)
  have state: "s' = run_events pl rest
      (call_stage pl 0 is_inverse (select_out pl 0 out ?scratch)
         (if ?c then ?scratch else inp) temp ?s1)"
    unfolding replay by simp
  have copied: "if ?c
      then trace ?s1 = trace s @ [Memcpy ?scratch inp ?n] \<and>
           (inp \<noteq> nullptr \<and> temp \<noteq> nullptr \<longrightarrow>
              (\<forall>j. 0 \<le> j \<and> j < int (unat ?n) \<longrightarrow>
                 peek (mem ?s1) ?scratch j = peek (mem s) inp j)) \<and>
           (\<forall>b a. \<not> within ?scratch ?n b a \<longrightarrow> mem ?s1 b a = mem s b a)
      else ?s1 = s"
  proof (cases ?c)
    case False
    show ?thesis unfolding if_not_P [OF False] by (rule refl)
  next
    case True
    have "trace (do_memcpy ?scratch inp ?n s) = trace s @ [Memcpy ?scratch inp ?n]"
      by (simp add: do_memcpy_def)
    moreover have "peek (mem (do_memcpy ?scratch inp ?n s)) ?scratch j = peek (mem s) inp j"
      if "inp \<noteq> nullptr \<and> temp \<noteq> nullptr" "0 \<le> j \<and> j < int (unat ?n)" for j
    proof -
      have "?scratch \<noteq> nullptr" using that(1) by (simp add: scratch_buffer_nullptr)
      then have "peek (builtin_memcpy ?scratch inp ?n (mem s)) ?scratch j = peek (mem s) inp j"
        using that by (intro builtin_memcpy_peek) simp_all
      then show ?thesis by (simp add: do_memcpy_def)
    qed
    moreover have "mem (do_memcpy ?scratch inp ?n s) b a = mem s b a"
      if "\<not> within ?scratch ?n b a" for b a
      using that by (simp add: do_memcpy_def builtin_memcpy_outside)
    ultimately show ?thesis
      unfolding if_P [OF True] by blast
  qed
  from replay no_copy state copied
  show "\<exists>s1 rest.
          s' = run_events pl (?first @ rest) s \<and>
          list_all (\<lambda>e. \<not> is_memcpy e) rest \<and>
          s' = run_events pl rest
            (call_stage pl 0 is_inverse (select_out pl 0 out ?scratch)
               (if ?c then ?scratch else inp) temp s1) \<and>
          (if ?c
           then trace s1 = trace s @ [Memcpy ?scratch inp ?n] \<and>
                (inp \<noteq> nullptr \<and> temp \<noteq> nullptr \<longrightarrow>
                   (\<forall>j. 0 \<le> j \<and> j < int (unat ?n) \<longrightarrow>
                      peek (mem s1) ?scratch j = peek (mem s) inp j)) \<and>
                (\<forall>b a. \<not> within ?scratch ?n b a \<longrightarrow> mem s1 b a = mem s b a)
           else s1 = s)"
    by (intro exI [of _ ?s1] exI [of _ rest] conjI)
qed

theorem first_stage_input_witness:
  "\<exists>s' s1 rest. execute_dft example_platform plan_mixed False (Ptr 1 0) (Ptr 1 0) (Ptr 3 0)
       example_input = Some (Inr s') \<and>
     s' = run_events plan_mixed rest
         (call_stage plan_mixed 0 False (Ptr 3 128) (Ptr 3 128) (Ptr 3 0) s1) \<and>
     list_all (\<lambda>e. \<not> is_memcpy e) rest \<and>
     trace s1 = [Memcpy (Ptr 3 128) (Ptr 1 0) 128] \<and>
     mem example_input 3 128 = 0 \<and> mem s1 3 128 = 7 \<and> mem s1 3 255 = 7 \<and>
     mem s1 3 127 = 0 \<and> mem s1 3 256 = 0 \<and> mem s1 1 0 = 7"
proof -
  have bounds: "counters_in_range plan_mixed"
    by (rule plan_in_bounds_range)
      (simp add: plan_in_bounds_def plan_mixed_def example_stage_def dft_stage_init_def)
  have general: "\<not> fast_path plan_mixed (Ptr 1 0) (Ptr 1 0)"
    by (simp add: fast_path_def plan_mixed_def)
  have scratch: "scratch_buffer example_platform plan_mixed (Ptr 3 0) = Ptr 3 128"
    by (simp add: scratch_buffer_def example_platform_def plan_mixed_def)
  have flags: "\<not> can_inplace (stages plan_mixed ! 0)" "to_scratch (stages plan_mixed ! 0)"
    "sizeof_complex example_platform * size_dft plan_mixed = 128"
    by (simp_all add: plan_mixed_def example_stage_def dft_stage_init_def example_platform_def)
  have start: "trace example_input = []" "mem example_input = (\<lambda>b a. if b = 3 then 0 else 7)"
    by (simp_all add: example_input_def)
  have cond: "(\<not> can_inplace (stages plan_mixed ! 0) \<and> Ptr 1 0 = Ptr 1 0) = True"
    "(Ptr 1 0 \<noteq> nullptr \<and> Ptr 3 0 \<noteq> nullptr) = True"
    "int (unat (128 :: size_t)) = 128"
    "select_out plan_mixed 0 (Ptr 1 0) (Ptr 3 128) = Ptr 3 128"
    using flags by (simp_all add: select_out_def)
  note inst = first_stage_input [OF general, of example_platform False "Ptr 3 0" example_input,
      unfolded scratch flags(3) cond if_True start(1) append_Nil]
  from inst bounds obtain s' where
    ret: "execute_dft example_platform plan_mixed False (Ptr 1 0) (Ptr 1 0) (Ptr 3 0)
       example_input = Some (Inr s')"
    by blast
  from inst ret obtain s1 rest where
    run: "s' = run_events plan_mixed rest
         (call_stage plan_mixed 0 False (Ptr 3 128) (Ptr 3 128) (Ptr 3 0) s1)"
    and rest: "list_all (\<lambda>e. \<not> is_memcpy e) rest"
    and tr: "trace s1 = [Memcpy (Ptr 3 128) (Ptr 1 0) 128]"
    and copy: "\<forall>j. 0 \<le> j \<and> j < 128 \<longrightarrow>
        peek (mem s1) (Ptr 3 128) j = peek (mem example_input) (Ptr 1 0) j"
    and frame: "\<forall>b a. \<not> within (Ptr 3 128) 128 b a \<longrightarrow> mem s1 b a = mem example_input b a"
    by blast
  have "mem s1 3 128 = 7" "mem s1 3 255 = 7"
    using copy [rule_format, of 0] copy [rule_format, of 127] by (simp_all add: start)
  moreover have "mem s1 3 127 = 0" "mem s1 3 256 = 0" "mem s1 1 0 = 7"
    using frame [rule_format, of 3 127] frame [rule_format, of 3 256] frame [rule_format, of 1 0]
    by (simp_all add: start)
  moreover have "mem example_input 3 128 = 0" by (simp add: start)
  ultimately show ?thesis using ret run rest tr by blast
qed

text \<open>
  C4: a plan with exactly one stage that can run in place, or whose \<^verbatim>\<open>in\<close> and \<^verbatim>\<open>out\<close>
  differ, hands the call to that stage with the caller's \<^verbatim>\<open>out\<close>, \<^verbatim>\<open>in\<close> and \<^verbatim>\<open>temp\<close>: the
  result is the state after that one call, with nothing copied and no other call made.
\<close>

theorem single_stage_delegates:
  assumes "length (stages pl) = 1" and "can_inplace (stages pl ! 0) \<or> inp \<noteq> out"
  shows "execute_dft pf pl is_inverse out inp temp s =
     Some (Inr (s\<lparr>mem := execute_stage (stages pl ! 0) is_inverse out inp temp (mem s),
                  trace := trace s @ [Exec_stage 0 is_inverse out inp temp]\<rparr>))"
  using assms by (simp add: execute_dft_def call_stage_def)

theorem single_stage_delegates_witness:
  "map_option (map_sum id trace)
     (execute_dft example_platform plan_single False (Ptr 1 0) (Ptr 1 0) (Ptr 3 0) example_state) =
   Some (Inr [Exec_stage 0 False (Ptr 1 0) (Ptr 1 0) (Ptr 3 0)])"
  using single_stage_delegates [where pl = plan_single and out = "Ptr 1 0" and inp = "Ptr 1 0"
      and pf = example_platform and is_inverse = False and temp = "Ptr 3 0"
      and s = example_state]
  by (simp add: plan_single_def example_stage_def dft_stage_init_def example_state_def)

text \<open>
  C5, as the specification states it: for every pack format, bin 0 of the product is
  set componentwise. This fails for the format \<open>CCs\<close>: the three helpers replace bin 0
  only under \<^verbatim>\<open>if (fmt == dft_pack_format::Perm)\<close>. With \<open>i * i\<close> in bin 0 they return the
  complex product \<open>- 1\<close>, where the componentwise product is \<open>i\<close>.
\<close>

theorem bin0_of_CCs_is_complex_product:
  "fft_multiply [\<lparr>real = 0, imag = 0\<rparr>] [\<lparr>real = 0, imag = 1 :: int\<rparr>]
     [\<lparr>real = 0, imag = 1\<rparr>] CCs = Inr [\<lparr>real = - 1, imag = 0\<rparr>] \<and>
   fft_multiply_accumulate [\<lparr>real = 0, imag = 0\<rparr>] [\<lparr>real = 0, imag = 1 :: int\<rparr>]
     [\<lparr>real = 0, imag = 1\<rparr>] CCs = Inr [\<lparr>real = - 1, imag = 0\<rparr>] \<and>
   fft_multiply_accumulate3 [\<lparr>real = 0, imag = 0\<rparr>] [\<lparr>real = 0, imag = 0 :: int\<rparr>]
     [\<lparr>real = 0, imag = 1\<rparr>] [\<lparr>real = 0, imag = 1\<rparr>] CCs = Inr [\<lparr>real = - 1, imag = 0\<rparr>] \<and>
   bin0_product \<lparr>real = 0, imag = 1 :: int\<rparr> \<lparr>real = 0, imag = 1\<rparr> = \<lparr>real = 0, imag = 1\<rparr>"
  by (simp add: fft_multiply_def fft_multiply_accumulate_def fft_multiply_accumulate3_def
      assign_expression_def cmul_def cadd_def bin0_product_def)

text \<open>
  C5, amended: on non-empty spectra of equal length, \<^verbatim>\<open>fft_multiply\<close> sets every bin
  \<open>i\<close> of \<^verbatim>\<open>dest\<close> to the complex product of \<open>src1[i]\<close> and \<open>src2[i]\<close>, except that with the
  format \<open>Perm\<close> bin 0 is the componentwise product of the real parts and of the
  imaginary parts; with \<open>CCs\<close> bin 0 is the complex product as well. The two
  \<^verbatim>\<open>fft_multiply_accumulate\<close> helpers add that product to \<open>dest[i]\<close>, or to \<open>src1[i]\<close>, with the
  same exception for bin 0 under \<open>Perm\<close>.
\<close>

theorem fft_multiply_bins:
  fixes src1 :: "('a::{plus,minus,times}) complex list"
  assumes "src1 \<noteq> []" and "length src2 = length src1" and "length src3 = length src1"
    and "length dest = length src1"
  shows "fft_multiply dest src1 src2 fm =
       Inr (map (\<lambda>i. if i = 0 \<and> fm = Perm then bin0_product (src1 ! 0) (src2 ! 0)
                     else cmul (src1 ! i) (src2 ! i)) [0..<length src1]) \<and>
     fft_multiply_accumulate dest src1 src2 fm =
       Inr (map (\<lambda>i. if i = 0 \<and> fm = Perm
                     then cadd (dest ! 0) (bin0_product (src1 ! 0) (src2 ! 0))
                     else cadd (dest ! i) (cmul (src1 ! i) (src2 ! i))) [0..<length src1]) \<and>
     fft_multiply_accumulate3 dest src1 src2 src3 fm =
       Inr (map (\<lambda>i. if i = 0 \<and> fm = Perm
                     then cadd (src1 ! 0) (bin0_product (src2 ! 0) (src3 ! 0))
                     else cadd (src1 ! i) (cmul (src2 ! i) (src3 ! i))) [0..<length src1])"
proof -
  let ?n = "length src1"
  have n: "0 < ?n" using assms(1) by simp
  have ne: "src2 \<noteq> []" "src3 \<noteq> []" "dest \<noteq> []" using assms by auto
  let ?p12 = "map (\<lambda>i. cmul (src1 ! i) (src2 ! i)) [0..<?n]"
  let ?p23 = "map (\<lambda>i. cmul (src2 ! i) (src3 ! i)) [0..<?n]"
  have p12: "map2 cmul src1 src2 = ?p12"
    using assms(2) by (rule map2_by_index)
  have p23: "map2 cmul src2 src3 = ?p23"
    using map2_by_index [of src3 src2 cmul] assms by simp
  have a1: "map2 cadd dest ?p12 = map (\<lambda>i. cadd (dest ! i) (cmul (src1 ! i) (src2 ! i))) [0..<?n]"
    using map2_by_index [of ?p12 dest cadd] assms by simp
  have a3: "map2 cadd src1 ?p23 = map (\<lambda>i. cadd (src1 ! i) (cmul (src2 ! i) (src3 ! i))) [0..<?n]"
    using map2_by_index [of ?p23 src1 cadd] by simp
  have product: "fft_multiply dest src1 src2 fm =
       Inr (map (\<lambda>i. if i = 0 \<and> fm = Perm then bin0_product (src1 ! 0) (src2 ! 0)
                     else cmul (src1 ! i) (src2 ! i)) [0..<?n])"
    using assms ne n
    by (cases fm)
      (simp_all add: fft_multiply_def p12 assign_expression_full bin0_update bin0_product_def
        Let_def del: upt_Suc)
  have accumulate: "fft_multiply_accumulate dest src1 src2 fm =
       Inr (map (\<lambda>i. if i = 0 \<and> fm = Perm
                     then cadd (dest ! 0) (bin0_product (src1 ! 0) (src2 ! 0))
                     else cadd (dest ! i) (cmul (src1 ! i) (src2 ! i))) [0..<?n])"
    using assms ne n
    by (cases fm)
      (simp_all add: fft_multiply_accumulate_def p12 a1 assign_expression_full bin0_update
        bin0_product_def cadd_def Let_def del: upt_Suc)
  have accumulate3: "fft_multiply_accumulate3 dest src1 src2 src3 fm =
       Inr (map (\<lambda>i. if i = 0 \<and> fm = Perm
                     then cadd (src1 ! 0) (bin0_product (src2 ! 0) (src3 ! 0))
                     else cadd (src1 ! i) (cmul (src2 ! i) (src3 ! i))) [0..<?n])"
    using assms ne n
    by (cases fm)
      (simp_all add: fft_multiply_accumulate3_def p23 a3 assign_expression_full bin0_update
        bin0_product_def cadd_def Let_def del: upt_Suc)
  from product accumulate accumulate3 show ?thesis by (intro conjI)
qed

theorem fft_multiply_bins_witness:
  "fft_multiply [\<lparr>real = 5, imag = 6\<rparr>, \<lparr>real = 7, imag = 8\<rparr>]
     [\<lparr>real = 0, imag = 1 :: int\<rparr>, \<lparr>real = 1, imag = 2\<rparr>]
     [\<lparr>real = 0, imag = 1\<rparr>, \<lparr>real = 3, imag = 4\<rparr>] Perm =
   Inr [\<lparr>real = 0, imag = 1\<rparr>, \<lparr>real = - 5, imag = 10\<rparr>] \<and>
   fft_multiply_accumulate [\<lparr>real = 5, imag = 6\<rparr>, \<lparr>real = 7, imag = 8\<rparr>]
     [\<lparr>real = 0, imag = 1 :: int\<rparr>, \<lparr>real = 1, imag = 2\<rparr>]
     [\<lparr>real = 0, imag = 1\<rparr>, \<lparr>real = 3, imag = 4\<rparr>] Perm =
   Inr [\<lparr>real = 5, imag = 7\<rparr>, \<lparr>real = 2, imag = 18\<rparr>] \<and>
   fft_multiply_accumulate3 [\<lparr>real = 5, imag = 6\<rparr>, \<lparr>real = 7, imag = 8\<rparr>]
     [\<lparr>real = 0, imag = 1 :: int\<rparr>, \<lparr>real = 1, imag = 2\<rparr>]
     [\<lparr>real = 0, imag = 1\<rparr>, \<lparr>real = 3, imag = 4\<rparr>]
     [\<lparr>real = 2, imag = 3\<rparr>, \<lparr>real = 1, imag = 1\<rparr>] Perm =
   Inr [\<lparr>real = 0, imag = 4\<rparr>, \<lparr>real = 0, imag = 9\<rparr>]"
  using fft_multiply_bins [of "[\<lparr>real = 0, imag = 1 :: int\<rparr>, \<lparr>real = 1, imag = 2\<rparr>]"
      "[\<lparr>real = 0, imag = 1\<rparr>, \<lparr>real = 3, imag = 4\<rparr>]"
      "[\<lparr>real = 2, imag = 3\<rparr>, \<lparr>real = 1, imag = 1\<rparr>]"
      "[\<lparr>real = 5, imag = 6\<rparr>, \<lparr>real = 7, imag = 8\<rparr>]" Perm]
  by (simp add: bin0_product_def cmul_def cadd_def)

text \<open>
  C6, as the specification states it: the forward direction runs the packing stage to
  lay the raw real samples into the layout the inner plan expects. This fails: the
  forward \<^verbatim>\<open>execute\<close> passes the raw samples (here at \<open>Ptr 2 0\<close>) to the inner plan, and the
  packing stage is called afterwards with \<^verbatim>\<open>out\<close> as its input; no call of the packing
  stage reads the raw samples.
\<close>

theorem forward_packing_stage_reads_out:
  "map_option (map_sum id trace)
     (execute_real_to_complex example_platform plan_real (Ptr 1 0) (Ptr 2 0) (Ptr 3 0) example_state) =
   Some (Inr [Exec_stage 0 False (Ptr 1 0) (Ptr 2 0) (Ptr 3 0),
              Exec_fmt False (Ptr 1 0) (Ptr 1 0) nullptr]) \<and>
   \<not> list_ex (packs_from (Ptr 2 0))
     [Exec_stage 0 False (Ptr 1 0) (Ptr 2 0) (Ptr 3 0), Exec_fmt False (Ptr 1 0) (Ptr 1 0) nullptr]"
  by (simp add: execute_real_to_complex_def execute_dft_def plan_real_def dft_stage_init_def
      example_state_def call_stage_def call_fmt_stage_def)

text \<open>
  C6, amended: for a real plan within bounds, the forward \<^verbatim>\<open>execute\<close> (both overloads)
  executes the inner plan forward on the raw samples and then, as the last call, the
  packing stage in place on \<^verbatim>\<open>out\<close>; the inverse \<^verbatim>\<open>execute\<close> (both overloads) calls the packing
  stage first, from \<^verbatim>\<open>in\<close> to \<^verbatim>\<open>out\<close>, and then executes the inner plan in the inverse
  direction in place on \<^verbatim>\<open>out\<close>.
\<close>

theorem real_plan_order:
  assumes "plan_in_bounds rp"
  shows "execute_real_to_complex pf rp out inp temp s =
       Some (Inr (call_fmt_stage rp False out out nullptr
         (run_events rp (plan_events outermost_once_run pf rp False out inp temp) s))) \<and>
     execute_real_to_complex_univector pf rp out inp temp s =
       Some (Inr (call_fmt_stage rp False out out nullptr
         (run_events rp (plan_events outermost_once_run pf rp False out inp temp) s))) \<and>
     execute_complex_to_real pf rp out inp temp s =
       Some (Inr (run_events rp (plan_events outermost_once_run pf rp True out out temp)
         (call_fmt_stage rp False out inp nullptr s))) \<and>
     execute_complex_to_real_univector pf rp out inp temp s =
       Some (Inr (run_events rp (plan_events outermost_once_run pf rp True out out temp)
         (call_fmt_stage rp True out inp nullptr s)))"
  by (simp add: execute_real_to_complex_def execute_real_to_complex_univector_def
      execute_complex_to_real_def execute_complex_to_real_univector_def
      execute_dft_in_bounds [OF assms])

theorem real_plan_order_witness:
  "map_option (map_sum id trace)
     (execute_real_to_complex example_platform plan_real (Ptr 1 0) (Ptr 2 0) (Ptr 3 0) example_state) =
   Some (Inr [Exec_stage 0 False (Ptr 1 0) (Ptr 2 0) (Ptr 3 0),
              Exec_fmt False (Ptr 1 0) (Ptr 1 0) nullptr]) \<and>
   map_option (map_sum id trace)
     (execute_complex_to_real example_platform plan_real (Ptr 1 0) (Ptr 2 0) (Ptr 3 0) example_state) =
   Some (Inr [Exec_fmt False (Ptr 1 0) (Ptr 2 0) nullptr,
              Exec_stage 0 True (Ptr 1 0) (Ptr 1 0) (Ptr 3 0)])"
proof -
  have bounds: "plan_in_bounds plan_real"
    by (simp add: plan_in_bounds_def plan_real_def dft_stage_init_def)
  have fast: "fast_path plan_real out inp" for out inp
    by (simp add: fast_path_def plan_real_def dft_stage_init_def)
  show ?thesis
    using real_plan_order [OF bounds, of example_platform "Ptr 1 0" "Ptr 2 0" "Ptr 3 0" example_state]
    by (simp add: plan_events_def fast call_stage_def call_fmt_stage_def example_state_def)
qed

text \<open>
  C7, as the specification states it: a plan that needs at most 32 levels of recursion,
  with \<^verbatim>\<open>repeats\<close> of at least 1 on its recursion stages, never leaves the 32 entries of
  \<^verbatim>\<open>stack\<close>. This fails on \<open>plan_long\<close>: its only recursion stage makes a run of one
  level, but it is the 33rd stage of the plan, and \<^verbatim>\<open>stack[rdepth]\<close> is indexed by the
  index of the stage: the first pass of the \<^verbatim>\<open>do ... while\<close> loop reads \<^verbatim>\<open>stack[32]\<close>.
\<close>

theorem one_level_plan_overflows:
  "fits_level_bound plan_long \<and>
   recursion_levels (stages plan_long) = 1 \<and>
   list_all (\<lambda>stg. repeats stg = 1) (stages plan_long) \<and>
   length (stages plan_long) = 33 \<and>
   execute_dft example_platform plan_long False (Ptr 1 0) (Ptr 2 0) (Ptr 3 0) example_state =
     Some (Inl stack_index_out_of_range)"
proof -
  have reps: "list_all (\<lambda>stg. repeats stg = 1) (stages plan_long)"
    by (simp add: plan_long_def list_all_iff example_stage_def dft_stage_init_def)
  then have "list_all (\<lambda>stg. repeats stg \<noteq> 0) (filter recursion (stages plan_long))"
    by (auto simp: list_all_iff)
  then have "fits_level_bound plan_long"
    by (simp add: fits_level_bound_def plan_long_levels)
  moreover have "length (stages plan_long) = 33"
    by (simp add: plan_long_def)
  ultimately show ?thesis
    using reps plan_long_levels long_plan_overflows by (intro conjI)
qed

text \<open>
  C7, amended: for a plan that is not empty and whose stages marked \<^verbatim>\<open>recursion\<close> are all
  among the first 32 stages and have \<^verbatim>\<open>repeats\<close> of at least 1, \<^verbatim>\<open>execute_dft\<close> returns a
  state: both iterations end and no pass reads or writes \<^verbatim>\<open>stack\<close> or \<^verbatim>\<open>stages\<close> outside
  their entries (an index outside would end the call with \<open>stack_index_out_of_range\<close> or
  \<open>stage_index_out_of_range\<close>). Every plan of 1 to 32 stages with such \<^verbatim>\<open>repeats\<close> is one of
  these.
\<close>

theorem execute_dft_total:
  assumes "counters_in_range pl"
  shows "\<exists>s'. execute_dft pf pl is_inverse out inp temp s = Some (Inr s')"
  by (simp add: execute_dft_in_range [OF assms])

text \<open>
  \<open>plan_wide\<close> has the 33 stages of \<open>plan_long\<close>, with the recursion stage in first
  position.
\<close>

theorem execute_dft_total_witness:
  "length (stages plan_wide) = 33 \<and>
   (\<exists>s'. execute_dft example_platform plan_wide False (Ptr 1 0) (Ptr 1 0) (Ptr 3 0) example_state
      = Some (Inr s'))"
proof
  show "length (stages plan_wide) = 33"
    by (simp add: plan_wide_def)
  have "recursion (stages plan_wide ! k) \<longrightarrow> k < 32 \<and> repeats (stages plan_wide ! k) \<noteq> 0"
    if "k < 33" for k
    using that
    by (cases k) (simp_all add: plan_wide_def example_stage_def dft_stage_init_def)
  then have "counters_in_range plan_wide"
    by (simp add: counters_in_range_def list_all_iff plan_wide_def)
  then show "\<exists>s'. execute_dft example_platform plan_wide False (Ptr 1 0) (Ptr 1 0) (Ptr 3 0)
      example_state = Some (Inr s')"
    by (rule execute_dft_total)
qed




text \<open>
  C10: the two complex-to-real overloads should compute the same result. On
  \<open>plan_real\<close> they do not: the raw-pointer overload calls the packing stage with the tag
  \<^verbatim>\<open>cfalse\<close>, the \<^verbatim>\<open>univector\<close> overload with \<^verbatim>\<open>ctrue\<close>, and the cell at \<^verbatim>\<open>out\<close> ends as 3 in
  the one and as 4 in the other.
\<close>

theorem complex_to_real_overloads_differ:
  "map_option (map_sum id (\<lambda>s. (trace s, mem s 1 0)))
     (execute_complex_to_real example_platform plan_real (Ptr 1 0) (Ptr 2 0) (Ptr 3 0) example_state) =
   Some (Inr ([Exec_fmt False (Ptr 1 0) (Ptr 2 0) nullptr,
               Exec_stage 0 True (Ptr 1 0) (Ptr 1 0) (Ptr 3 0)], 3)) \<and>
   map_option (map_sum id (\<lambda>s. (trace s, mem s 1 0)))
     (execute_complex_to_real_univector example_platform plan_real (Ptr 1 0) (Ptr 2 0) (Ptr 3 0)
        example_state) =
   Some (Inr ([Exec_fmt True (Ptr 1 0) (Ptr 2 0) nullptr,
               Exec_stage 0 True (Ptr 1 0) (Ptr 1 0) (Ptr 3 0)], 4))"
  by (simp add: execute_complex_to_real_def execute_complex_to_real_univector_def
      execute_dft_def plan_real_def dft_stage_init_def example_state_def call_stage_def
      call_fmt_stage_def execute_stage_def Let_def)

end
